theory Spec2Isabelle
  imports Complex_Main "HOL-Library.Multiset" "HOL-Library.Log_Nat"
begin

section \<open>Data model of \<^verbatim>\<open>src/app/page.tsx\<close>\<close>

text \<open>
  The page keeps an array of bars and sorts it with one of four engines
  (\<^verbatim>\<open>bubbleSort\<close>, \<^verbatim>\<open>quickSort\<close>, \<^verbatim>\<open>mergeSort\<close>, \<^verbatim>\<open>heapSort\<close>).
  Every engine takes the array, a statistics object that it mutates, and the flag
  \<^verbatim>\<open>isBenchmark\<close>. A bar is the interface \<^verbatim>\<open>ArrayBar\<close>; its \<^verbatim>\<open>value\<close> is a JavaScript
  number, modelled as a real (the engines only compare values, and the comparisons of
  finite numbers are those of the reals). Indices and loop counters are JavaScript
  numbers holding integers, possibly negative (\<^verbatim>\<open>low - 1\<close>, \<^verbatim>\<open>length - 1\<close> of an empty
  array), hence \<open>int\<close>.
\<close>

record ArrayBar =
  "value" :: real
  isComparing :: bool
  isSorted :: bool
  isSwapping :: bool

record BenchmarkResult =
  algorithm :: string
  sizes :: "nat list"
  times :: "int list"
  comparisons :: "nat list"
  swaps :: "nat list"

text \<open>
  \<^verbatim>\<open>SortStats\<close> has fields of the same names as \<^verbatim>\<open>BenchmarkResult\<close>; from here on
  \<open>comparisons\<close> and \<open>swaps\<close> are those of \<^verbatim>\<open>SortStats\<close>, and those of a benchmark
  result are written \<open>BenchmarkResult.comparisons\<close> and \<open>BenchmarkResult.swaps\<close>.
\<close>

record SortStats =
  comparisons :: nat
  swaps :: nat
  timeElapsed :: int

text \<open>
  What an engine can run into. \<open>TypeError\<close> is JavaScript's exception for reading or
  writing a property of \<^verbatim>\<open>undefined\<close>, which is what an array read outside
  \<open>0 \<dots> length - 1\<close> yields. \<open>OutsideModel\<close> marks the places where the source would
  store \<^verbatim>\<open>undefined\<close> in the array or assign outside its bounds (JavaScript then grows
  the array or adds a property to it): the model describes arrays without holes and
  stops there. The engines never get there, which the theorems on them show by
  exhibiting their \<open>Inr\<close> result.
\<close>

datatype error = TypeError | OutsideModel

type_synonym state = "ArrayBar list \<times> SortStats"

definition andThen :: "error + 'a \<Rightarrow> ('a \<Rightarrow> error + 'b) \<Rightarrow> error + 'b" where
  "andThen m f = (case m of Inl e \<Rightarrow> Inl e | Inr x \<Rightarrow> f x)"

text \<open>\<^verbatim>\<open>a[i]\<close>: the element, or \<^verbatim>\<open>undefined\<close> (\<open>None\<close>) outside the array.\<close>

definition elem :: "ArrayBar list \<Rightarrow> int \<Rightarrow> ArrayBar option" where
  "elem a i = (if 0 \<le> i \<and> i < int (length a) then Some (a ! nat i) else None)"

text \<open>\<^verbatim>\<open>x.value\<close>, a TypeError when \<^verbatim>\<open>x\<close> is \<^verbatim>\<open>undefined\<close>.\<close>

definition value_of :: "ArrayBar option \<Rightarrow> error + real" where
  "value_of x = (case x of None \<Rightarrow> Inl TypeError | Some b \<Rightarrow> Inr (value b))"

text \<open>
  \<^verbatim>\<open>a[i].flag = v\<close>, a TypeError when \<^verbatim>\<open>a[i]\<close> is \<^verbatim>\<open>undefined\<close>. The bars of an array are
  distinct objects (\<^verbatim>\<open>generateArray\<close> and \<^verbatim>\<open>runBenchmarks\<close> create one per position),
  so that setting a flag of the bar at one position changes that position only.
\<close>

definition set_prop :: "int \<Rightarrow> (ArrayBar \<Rightarrow> ArrayBar) \<Rightarrow> ArrayBar list \<Rightarrow> error + ArrayBar list" where
  "set_prop i f a = (case elem a i of None \<Rightarrow> Inl TypeError | Some b \<Rightarrow> Inr (a[nat i := f b]))"

text \<open>The three flags of a bar, and \<^verbatim>\<open>b.flag = v\<close>.\<close>

datatype flag = IsComparing | IsSorted | IsSwapping

fun set_flag :: "flag \<Rightarrow> bool \<Rightarrow> ArrayBar \<Rightarrow> ArrayBar" where
  "set_flag IsComparing v b = b\<lparr>isComparing := v\<rparr>"
| "set_flag IsSorted v b = b\<lparr>isSorted := v\<rparr>"
| "set_flag IsSwapping v b = b\<lparr>isSwapping := v\<rparr>"

text \<open>
  A sequence of assignments \<^verbatim>\<open>a[i].flag = v\<close>, each given by its index, flag and
  value; the first TypeError ends it.
\<close>

type_synonym flag_assignment = "int \<times> flag \<times> bool"

fun set_props :: "flag_assignment list \<Rightarrow> ArrayBar list \<Rightarrow> error + ArrayBar list" where
  "set_props [] a = Inr a"
| "set_props ((i, fl, v) # ps) a = andThen (set_prop i (set_flag fl v) a) (set_props ps)"

text \<open>
  A block \<^verbatim>\<open>if (!isBenchmark) { ... }\<close> of flag assignments. What else such a block
  does (\<^verbatim>\<open>setArray\<close>, \<^verbatim>\<open>await sleep\<close>, \<^verbatim>\<open>updateStats\<close>, \<^verbatim>\<open>setCurrentStep\<close>, \<^verbatim>\<open>playNote\<close>,
  \<^verbatim>\<open>setSorting\<close>, \<^verbatim>\<open>confetti\<close>, \<^verbatim>\<open>addToHistory\<close>) acts on the page, not on the working
  array or the statistics object, and is left out; \<^verbatim>\<open>sleep\<close> is taken to return (a
  pause is lifted in the end).
\<close>

definition interactive :: "bool \<Rightarrow> flag_assignment list \<Rightarrow> ArrayBar list \<Rightarrow> error + ArrayBar list" where
  "interactive isBenchmark ps a = (if \<not> isBenchmark then set_props ps a else Inr a)"

text \<open>\<^verbatim>\<open>const temp = a[i]; a[i] = a[j]; a[j] = temp;\<close>\<close>

definition swap_elems :: "int \<Rightarrow> int \<Rightarrow> ArrayBar list \<Rightarrow> error + ArrayBar list" where
  "swap_elems i j a =
     (case elem a i of None \<Rightarrow> Inl OutsideModel
      | Some x \<Rightarrow> (case elem a j of None \<Rightarrow> Inl OutsideModel
                   | Some y \<Rightarrow> Inr (a[nat i := y, nat j := x])))"

definition count_comparison :: "SortStats \<Rightarrow> SortStats" where
  "count_comparison st = st\<lparr>comparisons := comparisons st + 1\<rparr>"

definition count_swap :: "SortStats \<Rightarrow> SortStats" where
  "count_swap st = st\<lparr>swaps := swaps st + 1\<rparr>"

lemma andThen_cong [fundef_cong]:
  "m = m' \<Longrightarrow> (\<And>x. m' = Inr x \<Longrightarrow> f x = f' x) \<Longrightarrow> andThen m f = andThen m' f'"
  by (auto simp: andThen_def split: sum.splits)

section \<open>Bubble sort\<close>

text \<open>The body of the inner loop of \<^verbatim>\<open>bubbleSort\<close>, at index \<open>j\<close>.\<close>

definition bubble_step :: "bool \<Rightarrow> int \<Rightarrow> state \<Rightarrow> error + state" where
  "bubble_step isBenchmark j s =
     andThen (interactive isBenchmark [(j, IsComparing, True), (j + 1, IsComparing, True)] (fst s)) (\<lambda>a1.
     let st1 = count_comparison (snd s) in
     andThen (value_of (elem a1 j)) (\<lambda>vj.
     andThen (value_of (elem a1 (j + 1))) (\<lambda>vj1.
     andThen (if vj > vj1 then
                andThen (interactive isBenchmark [(j, IsSwapping, True), (j + 1, IsSwapping, True)] a1) (\<lambda>a2.
                andThen (swap_elems j (j + 1) a2) (\<lambda>a3.
                Inr (a3, count_swap st1)))
              else Inr (a1, st1)) (\<lambda>s2.
     andThen (interactive isBenchmark
                [(j, IsComparing, False), (j + 1, IsComparing, False),
                 (j, IsSwapping, False), (j + 1, IsSwapping, False)] (fst s2)) (\<lambda>a5.
     Inr (a5, snd s2))))))"

text \<open>\<^verbatim>\<open>for (let j = ...; j < n - i - 1; j++)\<close>, from the current \<open>j\<close>.\<close>

function bubble_inner :: "bool \<Rightarrow> int \<Rightarrow> int \<Rightarrow> int \<Rightarrow> state \<Rightarrow> error + state" where
  "bubble_inner isBenchmark n i j s =
     (if j < n - i - 1 then
        andThen (bubble_step isBenchmark j s) (bubble_inner isBenchmark n i (j + 1))
      else Inr s)"
  by pat_completeness auto
termination
  by (relation "measure (\<lambda>(isBenchmark, n, i, j, s). nat (n - i - 1 - j))") auto

declare bubble_inner.simps [simp del]

text \<open>\<^verbatim>\<open>for (let i = ...; i < n - 1; i++)\<close>, from the current \<open>i\<close>.\<close>

function bubble_outer :: "bool \<Rightarrow> int \<Rightarrow> int \<Rightarrow> state \<Rightarrow> error + state" where
  "bubble_outer isBenchmark n i s =
     (if i < n - 1 then
        andThen (bubble_inner isBenchmark n i 0 s) (\<lambda>s1.
        andThen (interactive isBenchmark [(n - i - 1, IsSorted, True)] (fst s1)) (\<lambda>a2.
        bubble_outer isBenchmark n (i + 1) (a2, snd s1)))
      else Inr s)"
  by pat_completeness auto
termination
  by (relation "measure (\<lambda>(isBenchmark, n, i, s). nat (n - 1 - i))") auto

declare bubble_outer.simps [simp del]

text \<open>
  \<^verbatim>\<open>bubbleSort(arr, currentStats, isBenchmark)\<close>. The result is the returned working
  array with the statistics object as the run left it. \<open>elapsed\<close> is what
  \<^verbatim>\<open>Date.now() - startTime\<close> reads at the end of the run.
\<close>

definition bubbleSort :: "int \<Rightarrow> ArrayBar list \<Rightarrow> SortStats \<Rightarrow> bool \<Rightarrow> error + state" where
  "bubbleSort elapsed arr currentStats isBenchmark =
     (let workingArray = arr; n = int (length workingArray) in
      andThen (bubble_outer isBenchmark n 0 (workingArray, currentStats)) (\<lambda>s1.
      andThen (interactive isBenchmark [(0, IsSorted, True)] (fst s1)) (\<lambda>a2.
      Inr (a2, (snd s1)\<lparr>timeElapsed := elapsed\<rparr>))))"

section \<open>Quick sort\<close>

text \<open>
  The body of the loop of \<^verbatim>\<open>partition\<close>, at index \<open>j\<close>, on the boundary \<open>i\<close>, the
  working array and the statistics.
\<close>

definition partition_step :: "bool \<Rightarrow> real \<Rightarrow> int \<Rightarrow> int \<Rightarrow> int \<times> state \<Rightarrow> error + (int \<times> state)" where
  "partition_step isBenchmark pivot high j c =
     (let i = fst c; s = snd c in
      andThen (interactive isBenchmark [(j, IsComparing, True), (high, IsComparing, True)] (fst s)) (\<lambda>a1.
      let st1 = count_comparison (snd s) in
      andThen (value_of (elem a1 j)) (\<lambda>vj.
      andThen (if vj < pivot then
                 let i1 = i + 1 in
                 andThen (interactive isBenchmark [(i1, IsSwapping, True), (j, IsSwapping, True)] a1) (\<lambda>a2.
                 andThen (swap_elems i1 j a2) (\<lambda>a3.
                 Inr (i1, a3, count_swap st1)))
               else Inr (i, a1, st1)) (\<lambda>c2.
      let i2 = fst c2; a4 = fst (snd c2); st2 = snd (snd c2) in
      andThen (interactive isBenchmark [(j, IsComparing, False), (high, IsComparing, False)] a4) (\<lambda>a5.
      andThen (interactive isBenchmark (if elem a5 i2 \<noteq> None then [(i2, IsSwapping, False)] else []) a5) (\<lambda>a6.
      andThen (interactive isBenchmark [(j, IsSwapping, False)] a6) (\<lambda>a7.
      Inr (i2, a7, st2))))))))"

text \<open>\<^verbatim>\<open>for (let j = ...; j < high; j++)\<close>, from the current \<open>j\<close>.\<close>

function partition_loop :: "bool \<Rightarrow> real \<Rightarrow> int \<Rightarrow> int \<Rightarrow> int \<times> state \<Rightarrow> error + (int \<times> state)" where
  "partition_loop isBenchmark pivot high j c =
     (if j < high then
        andThen (partition_step isBenchmark pivot high j c) (partition_loop isBenchmark pivot high (j + 1))
      else Inr c)"
  by pat_completeness auto
termination
  by (relation "measure (\<lambda>(isBenchmark, pivot, high, j, c). nat (high - j))") auto

declare partition_loop.simps [simp del]

text \<open>\<^verbatim>\<open>partition(low, high)\<close>: the pivot's final index and the state.\<close>

definition partition_qs :: "bool \<Rightarrow> int \<Rightarrow> int \<Rightarrow> state \<Rightarrow> error + (int \<times> state)" where
  "partition_qs isBenchmark low high s =
     andThen (value_of (elem (fst s) high)) (\<lambda>pivot.
     andThen (partition_loop isBenchmark pivot high low (low - 1, s)) (\<lambda>c.
     let i = fst c; a = fst (snd c); st = snd (snd c) in
     andThen (swap_elems (i + 1) high a) (\<lambda>a1.
     Inr (i + 1, a1, count_swap st))))"

lemma andThen_Inr_iff: "andThen m f = Inr y \<longleftrightarrow> (\<exists>x. m = Inr x \<and> f x = Inr y)"
  by (cases m) (simp_all add: andThen_def)

lemma andThen_Inr [simp]: "andThen (Inr x) f = f x"
  by (simp add: andThen_def)

lemma andThen_Inl [simp]: "andThen (Inl e) f = Inl e"
  by (simp add: andThen_def)

lemma partition_step_fst:
  "partition_step isBenchmark pivot high j c = Inr c2 \<Longrightarrow> fst c2 = fst c \<or> fst c2 = fst c + 1"
  by (auto simp: partition_step_def andThen_Inr_iff Let_def split: if_splits)

lemma partition_loop_fst:
  "partition_loop isBenchmark pivot high j c = Inr c' \<Longrightarrow> j \<le> high \<Longrightarrow>
     fst c \<le> fst c' \<and> fst c' \<le> fst c + (high - j)"
proof (induction isBenchmark pivot high j c rule: partition_loop.induct)
  case (1 isBenchmark pivot high j c)
  show ?case
  proof (cases "j < high")
    case True
    from "1.prems"(1) True obtain c1 where
      s: "partition_step isBenchmark pivot high j c = Inr c1" and
      r: "partition_loop isBenchmark pivot high (j + 1) c1 = Inr c'"
      by (subst (asm) partition_loop.simps) (auto simp: andThen_Inr_iff)
    from "1.IH"[OF True s r] True partition_step_fst[OF s] show ?thesis by auto
  next
    case False
    with "1.prems" show ?thesis by (subst (asm) partition_loop.simps) simp
  qed
qed

lemma partition_qs_bounds:
  "partition_qs isBenchmark low high s = Inr r \<Longrightarrow> low \<le> high \<Longrightarrow> low \<le> fst r \<and> fst r \<le> high"
  by (auto simp: partition_qs_def andThen_Inr_iff Let_def dest!: partition_loop_fst)

text \<open>\<^verbatim>\<open>quickSortHelper(low, high)\<close>\<close>

function quickSortHelper :: "bool \<Rightarrow> int \<Rightarrow> int \<Rightarrow> state \<Rightarrow> error + state" where
  "quickSortHelper isBenchmark low high s =
     (if low < high then
        andThen (partition_qs isBenchmark low high s) (\<lambda>r.
        let pi = fst r in
        andThen (quickSortHelper isBenchmark low (pi - 1) (snd r))
                (quickSortHelper isBenchmark (pi + 1) high))
      else Inr s)"
  by pat_completeness auto
termination
proof (relation "measure (\<lambda>(isBenchmark, low, high, s). nat (high - low))", goal_cases)
  case 1
  show ?case by simp
next
  case (2 isBenchmark low high s r pi)
  with partition_qs_bounds[of isBenchmark low high s r] show ?case by auto
next
  case (3 isBenchmark low high s r pi s1)
  with partition_qs_bounds[of isBenchmark low high s r] show ?case by auto
qed

declare quickSortHelper.simps [simp del]

text \<open>
  \<^verbatim>\<open>quickSort(arr, currentStats, isBenchmark)\<close>; the final \<^verbatim>\<open>forEach\<close> marks every bar
  of the working array as sorted.
\<close>

definition quickSort :: "int \<Rightarrow> ArrayBar list \<Rightarrow> SortStats \<Rightarrow> bool \<Rightarrow> error + state" where
  "quickSort elapsed arr currentStats isBenchmark =
     (let workingArray = arr in
      andThen (quickSortHelper isBenchmark 0 (int (length workingArray) - 1) (workingArray, currentStats)) (\<lambda>s1.
      andThen (interactive isBenchmark
                 (map (\<lambda>k. (int k, IsSorted, True)) [0..<length (fst s1)]) (fst s1)) (\<lambda>a2.
      Inr (a2, (snd s1)\<lparr>timeElapsed := elapsed\<rparr>))))"

section \<open>Merge sort\<close>

text \<open>
  \<^verbatim>\<open>a.slice(b, e)\<close>: a negative bound counts from the end of the array, and both
  bounds are clamped to the array.
\<close>

definition slice :: "ArrayBar list \<Rightarrow> int \<Rightarrow> int \<Rightarrow> ArrayBar list" where
  "slice a b e =
     (let len = int (length a);
          k = (if b < 0 then max (len + b) 0 else min b len);
          f = (if e < 0 then max (len + e) 0 else min e len)
      in take (nat (f - k)) (drop (nat k) a))"

text \<open>
  \<^verbatim>\<open>{...x, isComparing: false}\<close>: a copy of the bar \<^verbatim>\<open>x\<close>. Spreading \<^verbatim>\<open>undefined\<close> gives
  an object without a value, which is no bar.
\<close>

definition copy_bar :: "ArrayBar option \<Rightarrow> error + ArrayBar" where
  "copy_bar x = (case x of None \<Rightarrow> Inl OutsideModel | Some b \<Rightarrow> Inr (b\<lparr>isComparing := False\<rparr>))"

text \<open>\<^verbatim>\<open>a[k] = b\<close>\<close>

definition assign :: "int \<Rightarrow> ArrayBar \<Rightarrow> ArrayBar list \<Rightarrow> error + ArrayBar list" where
  "assign k b a = (if 0 \<le> k \<and> k < int (length a) then Inr (a[nat k := b]) else Inl OutsideModel)"

text \<open>
  The loops of \<^verbatim>\<open>merge\<close> run on the counters \<open>i\<close>, \<open>j\<close>, \<open>k\<close> and the state. The body
  of the first loop:
\<close>

type_synonym merge_state = "int \<times> int \<times> int \<times> state"

definition merge_step :: "bool \<Rightarrow> ArrayBar list \<Rightarrow> ArrayBar list \<Rightarrow> merge_state \<Rightarrow> error + merge_state" where
  "merge_step isBenchmark L R c =
     (case c of (i, j, k, a, st) \<Rightarrow>
      andThen (interactive isBenchmark [(k, IsComparing, True)] a) (\<lambda>a1.
      let st1 = count_comparison st in
      andThen (value_of (elem L i)) (\<lambda>vl.
      andThen (value_of (elem R j)) (\<lambda>vr.
      andThen (if vl \<le> vr then
                 andThen (copy_bar (elem L i)) (\<lambda>b.
                 andThen (assign k b a1) (\<lambda>a2. Inr (i + 1, j, a2)))
               else
                 andThen (copy_bar (elem R j)) (\<lambda>b.
                 andThen (assign k b a1) (\<lambda>a2. Inr (i, j + 1, a2)))) (\<lambda>r.
      Inr (fst r, fst (snd r), k + 1, snd (snd r), count_swap st1))))))"

lemma merge_step_counters:
  "merge_step isBenchmark L R (i, j, k, s) = Inr (i', j', k', s') \<Longrightarrow>
     (i' = i + 1 \<and> j' = j \<or> i' = i \<and> j' = j + 1) \<and> k' = k + 1"
  by (cases s) (auto simp: merge_step_def andThen_Inr_iff Let_def split: if_splits)

text \<open>\<^verbatim>\<open>while (i < n1 && j < n2)\<close>\<close>

function merge_loop :: "bool \<Rightarrow> ArrayBar list \<Rightarrow> ArrayBar list \<Rightarrow> int \<Rightarrow> int \<Rightarrow> merge_state \<Rightarrow> error + merge_state" where
  "merge_loop isBenchmark L R n1 n2 c =
     (if fst c < n1 \<and> fst (snd c) < n2 then
        andThen (merge_step isBenchmark L R c) (merge_loop isBenchmark L R n1 n2)
      else Inr c)"
  by pat_completeness auto
termination
proof (relation "measure (\<lambda>(isBenchmark, L, R, n1, n2, c). nat (n1 - fst c) + nat (n2 - fst (snd c)))", goal_cases)
  case 1
  show ?case by simp
next
  case (2 isBenchmark L R n1 n2 c c')
  obtain i j k s where c: "c = (i, j, k, s)" by (cases c) auto
  obtain i' j' k' s' where c': "c' = (i', j', k', s')" by (cases c') auto
  from 2 merge_step_counters[of isBenchmark L R i j k s i' j' k' s'] show ?case
    by (auto simp: c c')
qed

declare merge_loop.simps [simp del]

text \<open>
  \<^verbatim>\<open>while (i < n1)\<close> and \<^verbatim>\<open>while (j < n2)\<close>: the rest of the run \<open>X\<close> (\<^verbatim>\<open>L\<close> or \<^verbatim>\<open>R\<close>) of
  \<open>nx\<close> elements, read at \<open>x\<close>, goes to the positions from \<open>k\<close> on.
\<close>

function drain :: "bool \<Rightarrow> ArrayBar list \<Rightarrow> int \<Rightarrow> int \<Rightarrow> int \<Rightarrow> state \<Rightarrow> error + (int \<times> state)" where
  "drain isBenchmark X nx x k s =
     (if x < nx then
        andThen (copy_bar (elem X x)) (\<lambda>b.
        andThen (assign k b (fst s)) (\<lambda>a1.
        drain isBenchmark X nx (x + 1) (k + 1) (a1, count_swap (snd s))))
      else Inr (k, s))"
  by pat_completeness auto
termination
  by (relation "measure (\<lambda>(isBenchmark, X, nx, x, k, s). nat (nx - x))") auto

declare drain.simps [simp del]

text \<open>\<^verbatim>\<open>merge(left, mid, right)\<close>\<close>

definition merge_runs :: "bool \<Rightarrow> int \<Rightarrow> int \<Rightarrow> int \<Rightarrow> state \<Rightarrow> error + state" where
  "merge_runs isBenchmark left mid right s =
     (let n1 = mid - left + 1;
          n2 = right - mid;
          L = slice (fst s) left (mid + 1);
          R = slice (fst s) (mid + 1) (right + 1)
      in
      andThen (merge_loop isBenchmark L R n1 n2 (0, 0, left, s)) (\<lambda>c.
      case c of (i, j, k, s1) \<Rightarrow>
      andThen (drain isBenchmark L n1 i k s1) (\<lambda>d.
      andThen (drain isBenchmark R n2 j (fst d) (snd d)) (\<lambda>d'.
      Inr (snd d')))))"

text \<open>\<^verbatim>\<open>mergeSortHelper(left, right)\<close>; \<^verbatim>\<open>Math.floor((left + right) / 2)\<close> is \<open>div\<close>.\<close>

function mergeSortHelper :: "bool \<Rightarrow> int \<Rightarrow> int \<Rightarrow> state \<Rightarrow> error + state" where
  "mergeSortHelper isBenchmark left right s =
     (if left < right then
        let mid = (left + right) div 2 in
        andThen (mergeSortHelper isBenchmark left mid s) (\<lambda>s1.
        andThen (mergeSortHelper isBenchmark (mid + 1) right s1)
                (merge_runs isBenchmark left mid right))
      else Inr s)"
  by pat_completeness auto
termination
  by (relation "measure (\<lambda>(isBenchmark, left, right, s). nat (right - left))") auto

declare mergeSortHelper.simps [simp del]

definition mergeSort :: "int \<Rightarrow> ArrayBar list \<Rightarrow> SortStats \<Rightarrow> bool \<Rightarrow> error + state" where
  "mergeSort elapsed arr currentStats isBenchmark =
     (let workingArray = arr in
      andThen (mergeSortHelper isBenchmark 0 (int (length workingArray) - 1) (workingArray, currentStats)) (\<lambda>s1.
      andThen (interactive isBenchmark
                 (map (\<lambda>k. (int k, IsSorted, True)) [0..<length (fst s1)]) (fst s1)) (\<lambda>a2.
      Inr (a2, (snd s1)\<lparr>timeElapsed := elapsed\<rparr>))))"

section \<open>Heap sort\<close>

text \<open>
  The first part of \<^verbatim>\<open>heapify(n, i)\<close>: the two counted comparisons, which choose
  \<^verbatim>\<open>largest\<close> among \<open>i\<close> and its children \<open>2 * i + 1\<close> and \<open>2 * i + 2\<close>. A child is
  read only when its index is below \<open>n\<close> (\<^verbatim>\<open>&&\<close> evaluates its right operand only then).
\<close>

definition heapify_flags :: "int \<Rightarrow> int \<Rightarrow> bool \<Rightarrow> flag_assignment list" where
  "heapify_flags n i v =
     (let left = 2 * i + 1; right = 2 * i + 2 in
      [(i, IsComparing, v)] @ (if left < n then [(left, IsComparing, v)] else [])
        @ (if right < n then [(right, IsComparing, v)] else []))"

definition heapify_select :: "bool \<Rightarrow> int \<Rightarrow> int \<Rightarrow> state \<Rightarrow> error + (int \<times> state)" where
  "heapify_select isBenchmark n i s =
     (let left = 2 * i + 1; right = 2 * i + 2 in
      andThen (interactive isBenchmark (heapify_flags n i True) (fst s)) (\<lambda>a1.
      let st1 = count_comparison (snd s) in
      andThen (if left < n then
                 andThen (value_of (elem a1 left)) (\<lambda>vl.
                 andThen (value_of (elem a1 i)) (\<lambda>vi.
                 Inr (if vl > vi then left else i)))
               else Inr i) (\<lambda>largest1.
      let st2 = count_comparison st1 in
      andThen (if right < n then
                 andThen (value_of (elem a1 right)) (\<lambda>vr.
                 andThen (value_of (elem a1 largest1)) (\<lambda>vm.
                 Inr (if vr > vm then right else largest1)))
               else Inr largest1) (\<lambda>largest.
      Inr (largest, a1, st2)))))"

lemma value_of_elem_Inr: "value_of (elem a i) = Inr v \<Longrightarrow> 0 \<le> i \<and> i < int (length a)"
  by (auto simp: value_of_def elem_def split: if_splits)

lemma heapify_select_largest:
  "heapify_select isBenchmark n i s = Inr r \<Longrightarrow> fst r \<noteq> i \<Longrightarrow> i < fst r \<and> fst r < n"
  by (auto simp: heapify_select_def andThen_Inr_iff Let_def split: if_splits
           dest!: value_of_elem_Inr)

text \<open>\<^verbatim>\<open>heapify(n, i)\<close>\<close>

function heapify :: "bool \<Rightarrow> int \<Rightarrow> int \<Rightarrow> state \<Rightarrow> error + state" where
  "heapify isBenchmark n i s =
     andThen (heapify_select isBenchmark n i s) (\<lambda>r.
     let largest = fst r; a1 = fst (snd r); st2 = snd (snd r) in
     andThen (if largest \<noteq> i then
                andThen (interactive isBenchmark [(i, IsSwapping, True), (largest, IsSwapping, True)] a1) (\<lambda>a2.
                andThen (swap_elems i largest a2) (\<lambda>a3.
                let st3 = count_swap st2 in
                andThen (interactive isBenchmark [(i, IsSwapping, False), (largest, IsSwapping, False)] a3) (\<lambda>a4.
                heapify isBenchmark n largest (a4, st3))))
              else Inr (a1, st2)) (\<lambda>s4.
     andThen (interactive isBenchmark (heapify_flags n i False) (fst s4)) (\<lambda>a5.
     Inr (a5, snd s4))))"
  by pat_completeness auto
termination
proof (relation "measure (\<lambda>(isBenchmark, n, i, s). nat (n - i))", goal_cases)
  case 1
  show ?case by simp
next
  case (2 isBenchmark n i s r largest a1 st2 a2 a3 st3 a4)
  with heapify_select_largest[of isBenchmark n i s r] show ?case by auto
qed

declare heapify.simps [simp del]

text \<open>
  \<^verbatim>\<open>for (let i = Math.floor(workingArray.length / 2) - 1; i >= 0; i--)\<close>, from the
  current \<open>i\<close>.
\<close>

function build_heap :: "bool \<Rightarrow> int \<Rightarrow> state \<Rightarrow> error + state" where
  "build_heap isBenchmark i s =
     (if i \<ge> 0 then
        andThen (heapify isBenchmark (int (length (fst s))) i s) (build_heap isBenchmark (i - 1))
      else Inr s)"
  by pat_completeness auto
termination
  by (relation "measure (\<lambda>(isBenchmark, i, s). nat (i + 1))") auto

declare build_heap.simps [simp del]

text \<open>\<^verbatim>\<open>for (let i = workingArray.length - 1; i > 0; i--)\<close>, from the current \<open>i\<close>.\<close>

function extract_loop :: "bool \<Rightarrow> int \<Rightarrow> state \<Rightarrow> error + state" where
  "extract_loop isBenchmark i s =
     (if i > 0 then
        andThen (interactive isBenchmark [(0, IsSwapping, True), (i, IsSwapping, True)] (fst s)) (\<lambda>a1.
        andThen (swap_elems 0 i a1) (\<lambda>a2.
        let st1 = count_swap (snd s) in
        andThen (interactive isBenchmark
                   [(i, IsSorted, True), (0, IsSwapping, False), (i, IsSwapping, False)] a2) (\<lambda>a3.
        andThen (heapify isBenchmark i 0 (a3, st1)) (extract_loop isBenchmark (i - 1)))))
      else Inr s)"
  by pat_completeness auto
termination
  by (relation "measure (\<lambda>(isBenchmark, i, s). nat i)") auto

declare extract_loop.simps [simp del]

definition heapSort :: "int \<Rightarrow> ArrayBar list \<Rightarrow> SortStats \<Rightarrow> bool \<Rightarrow> error + state" where
  "heapSort elapsed arr currentStats isBenchmark =
     (let workingArray = arr in
      andThen (build_heap isBenchmark (int (length workingArray) div 2 - 1) (workingArray, currentStats)) (\<lambda>s1.
      andThen (extract_loop isBenchmark (int (length (fst s1)) - 1) s1) (\<lambda>s2.
      andThen (interactive isBenchmark [(0, IsSorted, True)] (fst s2)) (\<lambda>a3.
      Inr (a3, (snd s2)\<lparr>timeElapsed := elapsed\<rparr>)))))"

section \<open>Generated arrays and the benchmark\<close>

subsection \<open>The numbers of the generator\<close>

text \<open>
  The engines only compare the values of the bars, which are reals here. The generator
  computes them with the numbers of JavaScript, IEEE 754 doubles. A finite double is
  \<open>mantissa * 2 ^ exponent\<close> for a mantissa of at most 53 bits and an exponent of at least
  \<open>-1074\<close>, below \<open>2 ^ 1024\<close> in absolute value (\<open>2 ^ 53 * 2 ^ e\<close> is the double
  \<open>2 ^ 52 * 2 ^ (e + 1)\<close>). \<^verbatim>\<open>NaN\<close>, the infinities and the sign of zero are left out:
  \<^verbatim>\<open>Math.random()\<close> returns none of them, and the generator produces none.
\<close>

datatype double = Double (mantissa: int) (exponent: int)

definition val :: "double \<Rightarrow> real" where
  "val d = of_int (mantissa d) * 2 powi exponent d"

definition is_double :: "double \<Rightarrow> bool" where
  "is_double d \<longleftrightarrow> \<bar>mantissa d\<bar> \<le> 2 ^ 53 \<and> - 1074 \<le> exponent d \<and> \<bar>val d\<bar> < 2 ^ 1024"

text \<open>
  The integer nearest to \<open>M / 2 ^ s\<close>, the even one of the two when it lies halfway.
\<close>

definition round_half_even :: "int \<Rightarrow> nat \<Rightarrow> int" where
  "round_half_even M s =
     (let q = M div 2 ^ s; r = M mod 2 ^ s in
      if 2 * r < 2 ^ s then q else if 2 * r > 2 ^ s then q + 1 else if even q then q else q + 1)"

text \<open>
  The double nearest to \<open>M * 2 ^ E\<close>, the one with the even mantissa of the two when it
  lies halfway: the result of an arithmetic operation whose exact result is
  \<open>M * 2 ^ E\<close>. The shift \<open>s\<close> keeps 53 bits of \<open>M\<close>, or fewer when the last place would
  fall below \<open>2 ^ -1074\<close>. (A result of \<open>2 ^ 1024\<close> or more, which JavaScript replaces
  by \<^verbatim>\<open>Infinity\<close>, does not occur in the generator.)
\<close>

definition round_double :: "int \<Rightarrow> int \<Rightarrow> double" where
  "round_double M E =
     (let s = max (bitlen \<bar>M\<bar> - 53) (- 1074 - E) in
      if s \<le> 0 then Double M E else Double (round_half_even M (nat s)) (E + s))"

text \<open>\<^verbatim>\<open>a * b\<close>, \<^verbatim>\<open>a + b\<close>, \<^verbatim>\<open>a - b\<close> and \<^verbatim>\<open>Math.floor(d)\<close> on doubles.\<close>

definition dmul :: "double \<Rightarrow> double \<Rightarrow> double" where
  "dmul a b = round_double (mantissa a * mantissa b) (exponent a + exponent b)"

definition dadd :: "double \<Rightarrow> double \<Rightarrow> double" where
  "dadd a b =
     (let e = min (exponent a) (exponent b) in
      round_double (mantissa a * 2 ^ nat (exponent a - e) + mantissa b * 2 ^ nat (exponent b - e)) e)"

definition dsub :: "double \<Rightarrow> double \<Rightarrow> double" where
  "dsub a b = dadd a (Double (- mantissa b) (exponent b))"

definition dfloor :: "double \<Rightarrow> double" where
  "dfloor d =
     Double (if 0 \<le> exponent d then mantissa d * 2 ^ nat (exponent d)
             else mantissa d div 2 ^ nat (- exponent d)) 0"

subsection \<open>The generator\<close>

definition ARRAY_SIZE :: nat where "ARRAY_SIZE = 50"
definition MIN_VALUE :: double where "MIN_VALUE = Double 5 0"
definition MAX_VALUE :: double where "MAX_VALUE = Double 100 0"

text \<open>The bar that \<^verbatim>\<open>generateArray\<close> and \<^verbatim>\<open>runBenchmarks\<close> create for a value.\<close>

definition new_bar :: "real \<Rightarrow> ArrayBar" where
  "new_bar v = \<lparr>value = v, isComparing = False, isSorted = False, isSwapping = False\<rparr>"

text \<open>
  \<^verbatim>\<open>Math.floor(Math.random() * (MAX_VALUE - MIN_VALUE + 1)) + MIN_VALUE\<close>, for the
  double \<open>r\<close> that \<^verbatim>\<open>Math.random()\<close> returned. Each of the four operations rounds its
  result to a double.
\<close>

definition random_value :: "double \<Rightarrow> real" where
  "random_value r =
     val (dadd (dfloor (dmul r (dadd (dsub MAX_VALUE MIN_VALUE) (Double 1 0)))) MIN_VALUE)"

text \<open>
  \<^verbatim>\<open>generateArray()\<close>: the array it passes to \<^verbatim>\<open>setArray\<close>, where \<open>random k\<close> is what
  the call of \<^verbatim>\<open>Math.random()\<close> for position \<open>k\<close> returned.
\<close>

definition generateArray :: "(nat \<Rightarrow> double) \<Rightarrow> ArrayBar list" where
  "generateArray random = map (\<lambda>k. new_bar (random_value (random k))) [0..<ARRAY_SIZE]"


definition testArray :: "(nat \<Rightarrow> double) \<Rightarrow> nat \<Rightarrow> ArrayBar list" where
  "testArray random sz = map (\<lambda>k. new_bar (random_value (random k))) [0..<sz]"

definition testStats :: SortStats where
  "testStats = \<lparr>comparisons = 0, swaps = 0, timeElapsed = 0\<rparr>"






section \<open>The engines on the values alone\<close>

text \<open>
  What a run computes is decided by the values and the statistics; the flags are
  written and never read. The functions \<open>v_\<dots>\<close> below are the engines on a list of
  values with natural indices, without flags and without the undefined reads, and each
  loop and function of the engines is shown to compute what they compute, in either mode,
  when its indices lie in the array.
\<close>

type_synonym vstate = "real list \<times> SortStats"

definition vals :: "state \<Rightarrow> vstate" where
  "vals s = (map value (fst s), snd s)"

definition swap_list :: "nat \<Rightarrow> nat \<Rightarrow> 'a list \<Rightarrow> 'a list" where
  "swap_list i j xs = xs[i := xs ! j, j := xs ! i]"

definition in_array :: "ArrayBar list \<Rightarrow> flag_assignment list \<Rightarrow> bool" where
  "in_array a ps = list_all (\<lambda>p. 0 \<le> fst p \<and> fst p < int (length a)) ps"

definition shown :: "bool \<Rightarrow> flag_assignment list \<Rightarrow> ArrayBar list \<Rightarrow> ArrayBar list" where
  "shown isBenchmark ps a = (case interactive isBenchmark ps a of Inr a' \<Rightarrow> a' | Inl e \<Rightarrow> a)"

lemma value_set_flag [simp]: "value (set_flag fl v b) = value b"
  by (cases fl) simp_all

lemma in_array_simps [simp]:
  "in_array a []"
  "in_array a (p # ps) \<longleftrightarrow> 0 \<le> fst p \<and> fst p < int (length a) \<and> in_array a ps"
  "in_array a (ps @ qs) \<longleftrightarrow> in_array a ps \<and> in_array a qs"
  by (auto simp: in_array_def)

lemma set_prop_Inr:
  "set_prop i (set_flag fl v) a = Inr a' \<Longrightarrow> length a' = length a \<and> map value a' = map value a"
  by (auto simp: set_prop_def elem_def map_update list_update_same_conv split: if_splits)

lemma set_props_Inr:
  "set_props ps a = Inr a' \<Longrightarrow> length a' = length a \<and> map value a' = map value a"
proof (induction ps a rule: set_props.induct)
  case (1 a)
  then show ?case by simp
next
  case (2 i fl v ps a)
  from "2.prems" obtain a1 where a1: "set_prop i (set_flag fl v) a = Inr a1"
    and r: "set_props ps a1 = Inr a'" by (auto simp: andThen_Inr_iff)
  from "2.IH"[OF r] set_prop_Inr[OF a1] show ?case by simp
qed

lemma set_props_ok: "in_array a ps \<Longrightarrow> \<exists>a'. set_props ps a = Inr a'"
proof (induction ps a rule: set_props.induct)
  case (1 a)
  show ?case by simp
next
  case (2 i fl v ps a)
  from "2.prems" have a1: "set_prop i (set_flag fl v) a = Inr (a[nat i := set_flag fl v (a ! nat i)])"
    by (simp add: set_prop_def elem_def)
  from "2.prems" have "in_array (a[nat i := set_flag fl v (a ! nat i)]) ps"
    by (simp add: in_array_def)
  from "2.IH"[OF this] a1 show ?case by simp
qed

lemma interactive_ok [simp]:
  "in_array a ps \<Longrightarrow> interactive isBenchmark ps a = Inr (shown isBenchmark ps a)"
  using set_props_ok[of a ps] by (auto simp: interactive_def shown_def)

lemma shown_benchmark [simp]: "shown True ps a = a"
  by (simp add: shown_def interactive_def)

lemma length_shown [simp]: "length (shown isBenchmark ps a) = length a"
  by (auto simp: shown_def interactive_def split: sum.splits dest: set_props_Inr)

lemma values_shown [simp]: "map value (shown isBenchmark ps a) = map value a"
  by (auto simp: shown_def interactive_def split: sum.splits dest: set_props_Inr)

lemma value_shown_nth [simp]:
  "k < length a \<Longrightarrow> value (shown isBenchmark ps a ! k) = value (a ! k)"
  using values_shown[of isBenchmark ps a] by (metis length_shown nth_map)

lemma value_of_elem [simp]:
  "0 \<le> i \<Longrightarrow> i < int (length a) \<Longrightarrow> value_of (elem a i) = Inr (value (a ! nat i))"
  by (simp add: value_of_def elem_def)

lemma swap_elems_ok [simp]:
  "0 \<le> i \<Longrightarrow> i < int (length a) \<Longrightarrow> 0 \<le> j \<Longrightarrow> j < int (length a) \<Longrightarrow>
     swap_elems i j a = Inr (swap_list (nat i) (nat j) a)"
  by (simp add: swap_elems_def elem_def swap_list_def)

lemma length_swap_list [simp]: "length (swap_list i j xs) = length xs"
  by (simp add: swap_list_def)

lemma map_swap_list:
  "i < length xs \<Longrightarrow> j < length xs \<Longrightarrow> map f (swap_list i j xs) = swap_list i j (map f xs)"
  by (simp add: swap_list_def map_update)

lemma mset_swap_list [simp]:
  "i < length xs \<Longrightarrow> j < length xs \<Longrightarrow> mset (swap_list i j xs) = mset xs"
  by (simp add: swap_list_def mset_swap)

lemma vals_simps [simp]: "fst (vals s) = map value (fst s)" "snd (vals s) = snd s"
  by (simp_all add: vals_def)

subsection \<open>Bubble sort\<close>

definition v_bubble_step :: "nat \<Rightarrow> vstate \<Rightarrow> vstate" where
  "v_bubble_step j s =
     (if fst s ! j > fst s ! (j + 1)
      then (swap_list j (j + 1) (fst s), count_swap (count_comparison (snd s)))
      else (fst s, count_comparison (snd s)))"

text \<open>\<open>k\<close> steps of the inner loop, from index \<open>j\<close>.\<close>

fun v_bubble_inner :: "nat \<Rightarrow> nat \<Rightarrow> vstate \<Rightarrow> vstate" where
  "v_bubble_inner 0 j s = s"
| "v_bubble_inner (Suc k) j s = v_bubble_inner k (j + 1) (v_bubble_step j s)"

text \<open>The passes that leave a prefix of \<open>m\<close> elements to sort, for \<open>m\<close> down to 2.\<close>

fun v_bubble_outer :: "nat \<Rightarrow> vstate \<Rightarrow> vstate" where
  "v_bubble_outer 0 s = s"
| "v_bubble_outer (Suc m) s = (if m = 0 then s else v_bubble_outer m (v_bubble_inner m 0 s))"

lemma length_v_bubble_step [simp]: "length (fst (v_bubble_step j s)) = length (fst s)"
  by (simp add: v_bubble_step_def)

lemma length_v_bubble_inner [simp]: "length (fst (v_bubble_inner k j s)) = length (fst s)"
  by (induction k arbitrary: j s) simp_all

lemma length_v_bubble_outer [simp]: "length (fst (v_bubble_outer m s)) = length (fst s)"
  by (induction m arbitrary: s) simp_all

lemma bubble_step_refines:
  assumes "0 \<le> j" "j + 1 < int (length (fst s))"
  shows "\<exists>s'. bubble_step isBenchmark j s = Inr s' \<and> vals s' = v_bubble_step (nat j) (vals s)"
proof -
  from assms have n: "nat (j + 1) = nat j + 1" "nat j < length (fst s)" "nat j + 1 < length (fst s)"
    by auto
  with assms show ?thesis
    by (simp add: bubble_step_def v_bubble_step_def Let_def vals_def map_swap_list)
qed

lemma bubble_inner_refines:
  "0 \<le> j \<Longrightarrow> n - i - 1 \<le> int (length (fst s)) - 1 \<Longrightarrow>
     \<exists>s'. bubble_inner isBenchmark n i j s = Inr s' \<and>
          vals s' = v_bubble_inner (nat (n - i - 1 - j)) (nat j) (vals s)"
proof (induction isBenchmark n i j s rule: bubble_inner.induct)
  case (1 isBenchmark n i j s)
  show ?case
  proof (cases "j < n - i - 1")
    case True
    with "1.prems" obtain s1 where s1: "bubble_step isBenchmark j s = Inr s1"
      and v1: "vals s1 = v_bubble_step (nat j) (vals s)"
      using bubble_step_refines[of j s isBenchmark] by auto
    from v1 have len: "length (fst s1) = length (fst s)"
      by (metis length_map length_v_bubble_step vals_simps(1))
    from "1.prems" len have "0 \<le> j + 1" "n - i - 1 \<le> int (length (fst s1)) - 1" by auto
    from "1.IH"[OF True s1 this] obtain s' where
      r: "bubble_inner isBenchmark n i (j + 1) s1 = Inr s'" and
      v: "vals s' = v_bubble_inner (nat (n - i - 1 - (j + 1))) (nat (j + 1)) (vals s1)" by blast
    from True "1.prems" have k: "nat (n - i - 1 - j) = Suc (nat (n - i - 1 - (j + 1)))"
      and j: "nat (j + 1) = nat j + 1" by auto
    from True s1 r have "bubble_inner isBenchmark n i j s = Inr s'"
      by (subst bubble_inner.simps) simp
    with v v1 k j show ?thesis by simp
  next
    case False
    then show ?thesis by (subst bubble_inner.simps) simp
  qed
qed

lemma bubble_outer_refines:
  "0 \<le> i \<Longrightarrow> n = int (length (fst s)) \<Longrightarrow>
     \<exists>s'. bubble_outer isBenchmark n i s = Inr s' \<and> vals s' = v_bubble_outer (nat (n - i)) (vals s)"
proof (induction isBenchmark n i s rule: bubble_outer.induct)
  case (1 isBenchmark n i s)
  show ?case
  proof (cases "i < n - 1")
    case True
    with "1.prems" obtain s1 where s1: "bubble_inner isBenchmark n i 0 s = Inr s1"
      and v1: "vals s1 = v_bubble_inner (nat (n - i - 1)) 0 (vals s)"
      using bubble_inner_refines[of 0 n i s isBenchmark] by auto
    from v1 have len: "length (fst s1) = length (fst s)"
      by (metis length_map length_v_bubble_inner vals_simps(1))
    let ?a2 = "shown isBenchmark [(n - i - 1, IsSorted, True)] (fst s1)"
    from True "1.prems" len have a2: "interactive isBenchmark [(n - i - 1, IsSorted, True)] (fst s1) = Inr ?a2"
      by simp
    have v2: "vals (?a2, snd s1) = vals s1" by (simp add: vals_def)
    from "1.prems" len have "0 \<le> i + 1" "n = int (length (fst (?a2, snd s1)))" by auto
    from "1.IH"[OF True s1 a2 this] obtain s' where
      r: "bubble_outer isBenchmark n (i + 1) (?a2, snd s1) = Inr s'" and
      v: "vals s' = v_bubble_outer (nat (n - (i + 1))) (vals (?a2, snd s1))" by blast
    from True "1.prems" have k: "nat (n - i) = Suc (nat (n - (i + 1)))" "nat (n - i - 1) = nat (n - (i + 1))"
      "nat (n - (i + 1)) \<noteq> 0" by auto
    from True s1 a2 r have "bubble_outer isBenchmark n i s = Inr s'"
      by (subst bubble_outer.simps) simp
    with v v1 v2 k show ?thesis by simp
  next
    case False
    then have "nat (n - i) = 0 \<or> nat (n - i) = Suc 0" by auto
    with False show ?thesis by (subst bubble_outer.simps) auto
  qed
qed

definition v_bubbleSort :: "vstate \<Rightarrow> vstate" where
  "v_bubbleSort s = v_bubble_outer (length (fst s)) s"

definition finished :: "int \<Rightarrow> vstate \<Rightarrow> vstate" where
  "finished elapsed s = (fst s, (snd s)\<lparr>timeElapsed := elapsed\<rparr>)"

lemma vals_pair [simp]: "vals (a, st) = (map value a, st)"
  by (simp add: vals_def)

lemma bubbleSort_refines:
  assumes "isBenchmark \<or> arr \<noteq> []"
  shows "\<exists>s'. bubbleSort elapsed arr currentStats isBenchmark = Inr s' \<and>
           vals s' = finished elapsed (v_bubbleSort (vals (arr, currentStats)))"
proof -
  obtain s1 where s1: "bubble_outer isBenchmark (int (length arr)) 0 (arr, currentStats) = Inr s1"
    and v1: "vals s1 = v_bubble_outer (length arr) (vals (arr, currentStats))"
    using bubble_outer_refines[of 0 "int (length arr)" "(arr, currentStats)" isBenchmark] by auto
  from v1 have len: "length (fst s1) = length arr"
    by (metis fst_conv length_map length_v_bubble_outer vals_simps(1))
  have "interactive isBenchmark [(0, IsSorted, True)] (fst s1) = Inr (shown isBenchmark [(0, IsSorted, True)] (fst s1))"
  proof (cases isBenchmark)
    case True
    then show ?thesis by (simp add: interactive_def)
  next
    case False
    with assms len show ?thesis by simp
  qed
  with s1 v1[symmetric] show ?thesis
    by (simp add: bubbleSort_def Let_def v_bubbleSort_def finished_def)
qed

section \<open>Sorting within a range of indices\<close>

definition perm_in :: "nat \<Rightarrow> nat \<Rightarrow> 'a list \<Rightarrow> 'a list \<Rightarrow> bool" where
  "perm_in l u xs ys \<longleftrightarrow>
     length ys = length xs \<and> mset ys = mset xs \<and>
     (\<forall>t < length xs. t < l \<or> u \<le> t \<longrightarrow> ys ! t = xs ! t)"

definition sorted_in :: "nat \<Rightarrow> nat \<Rightarrow> real list \<Rightarrow> bool" where
  "sorted_in l u xs \<longleftrightarrow> (\<forall>s t. l \<le> s \<and> s \<le> t \<and> t < u \<longrightarrow> xs ! s \<le> xs ! t)"

lemma perm_in_refl [simp]: "perm_in l u xs xs"
  by (simp add: perm_in_def)

lemma perm_in_trans: "perm_in l u xs ys \<Longrightarrow> perm_in l u ys zs \<Longrightarrow> perm_in l u xs zs"
  by (simp add: perm_in_def)

lemma perm_in_mono: "perm_in l u xs ys \<Longrightarrow> l' \<le> l \<Longrightarrow> u \<le> u' \<Longrightarrow> perm_in l' u' xs ys"
  by (auto simp: perm_in_def)

lemma perm_in_swap:
  "l \<le> i \<Longrightarrow> i < u \<Longrightarrow> l \<le> j \<Longrightarrow> j < u \<Longrightarrow> u \<le> length xs \<Longrightarrow> perm_in l u xs (swap_list i j xs)"
  by (auto simp: perm_in_def swap_list_def mset_swap)

lemma perm_in_length: "perm_in l u xs ys \<Longrightarrow> length ys = length xs"
  by (simp add: perm_in_def)

lemma perm_in_mset: "perm_in l u xs ys \<Longrightarrow> mset ys = mset xs"
  by (simp add: perm_in_def)

lemma perm_in_outside:
  "perm_in l u xs ys \<Longrightarrow> t < length xs \<Longrightarrow> t < l \<or> u \<le> t \<Longrightarrow> ys ! t = xs ! t"
  by (auto simp: perm_in_def)

lemma perm_in_mid:
  assumes "perm_in l u xs ys" "l \<le> u" "u \<le> length xs"
  shows "mset (take (u - l) (drop l ys)) = mset (take (u - l) (drop l xs))"
proof -
  from assms have len: "length ys = length xs" by (simp add: perm_in_def)
  have t: "take l ys = take l xs"
    using assms len by (intro nth_equalityI) (auto simp: perm_in_def)
  have d: "drop u ys = drop u xs"
    using assms len by (intro nth_equalityI) (auto simp: perm_in_def)
  have split: "\<And>zs::'a list. zs = take l zs @ take (u - l) (drop l zs) @ drop u zs"
    using assms(2) by (metis append_take_drop_id drop_drop le_add_diff_inverse2)
  have "mset ys = mset (take l ys) + mset (take (u - l) (drop l ys)) + mset (drop u ys)"
    by (subst split[of ys]) simp
  moreover have "mset xs = mset (take l xs) + mset (take (u - l) (drop l xs)) + mset (drop u xs)"
    by (subst split[of xs]) simp
  moreover from assms have "mset ys = mset xs" by (simp add: perm_in_def)
  ultimately show ?thesis using t d by simp
qed

lemma perm_in_all:
  assumes "perm_in l u xs ys" "u \<le> length xs" "\<forall>t. l \<le> t \<and> t < u \<longrightarrow> P (xs ! t)"
    "l \<le> t" "t < u"
  shows "P (ys ! t)"
proof -
  from assms have lu: "l \<le> u" by simp
  from assms have len: "length ys = length xs" by (simp add: perm_in_def)
  have "ys ! t = take (u - l) (drop l ys) ! (t - l)" using assms len by simp
  moreover have "t - l < length (take (u - l) (drop l ys))" using assms len by simp
  ultimately have "ys ! t \<in> set (take (u - l) (drop l ys))" by (metis nth_mem)
  then have "ys ! t \<in># mset (take (u - l) (drop l xs))"
    using perm_in_mid[OF assms(1) lu assms(2)] by (metis set_mset_mset)
  then have "ys ! t \<in> set (take (u - l) (drop l xs))" by simp
  then obtain k where k: "k < length (take (u - l) (drop l xs))" "take (u - l) (drop l xs) ! k = ys ! t"
    by (auto simp: in_set_conv_nth)
  with assms have "xs ! (l + k) = ys ! t" "l \<le> l + k" "l + k < u" by auto
  with assms(3) show ?thesis by metis
qed

lemma sorted_in_all: "sorted_in 0 (length xs) xs \<longleftrightarrow> sorted xs"
  by (auto simp: sorted_in_def sorted_iff_nth_mono)

subsection \<open>Bubble sort sorts\<close>

lemma v_bubble_step_list:
  assumes "j + 1 < length (fst s)" "\<forall>t<j. fst s ! t \<le> fst s ! j"
  shows "perm_in 0 (j + 2) (fst s) (fst (v_bubble_step j s)) \<and>
         (\<forall>t<j + 1. fst (v_bubble_step j s) ! t \<le> fst (v_bubble_step j s) ! (j + 1))"
proof (cases "fst s ! j > fst s ! (j + 1)")
  case True
  have p: "perm_in 0 (j + 2) (fst s) (swap_list j (j + 1) (fst s))"
    using assms(1) by (intro perm_in_swap) auto
  have "\<forall>t<j + 1. swap_list j (j + 1) (fst s) ! t \<le> swap_list j (j + 1) (fst s) ! (j + 1)"
  proof (intro allI impI)
    fix t assume t: "t < j + 1"
    show "swap_list j (j + 1) (fst s) ! t \<le> swap_list j (j + 1) (fst s) ! (j + 1)"
    proof (cases "t = j")
      case True
      with assms(1) \<open>fst s ! j > fst s ! (j + 1)\<close> show ?thesis by (simp add: swap_list_def)
    next
      case False
      with t assms show ?thesis by (simp add: swap_list_def)
    qed
  qed
  with p True show ?thesis by (simp add: v_bubble_step_def)
next
  case False
  have "\<forall>t<j + 1. fst s ! t \<le> fst s ! (j + 1)"
  proof (intro allI impI)
    fix t assume t: "t < j + 1"
    show "fst s ! t \<le> fst s ! (j + 1)"
    proof (cases "t = j")
      case True
      with False show ?thesis by simp
    next
      case F: False
      with t assms(2) have "fst s ! t \<le> fst s ! j" by simp
      with False show ?thesis by simp
    qed
  qed
  with False show ?thesis by (simp add: v_bubble_step_def)
qed

lemma v_bubble_inner_list:
  "j + k < length (fst s) \<Longrightarrow> \<forall>t<j. fst s ! t \<le> fst s ! j \<Longrightarrow>
     perm_in 0 (j + k + 1) (fst s) (fst (v_bubble_inner k j s)) \<and>
     (\<forall>t<j + k. fst (v_bubble_inner k j s) ! t \<le> fst (v_bubble_inner k j s) ! (j + k))"
proof (induction k arbitrary: j s)
  case 0
  then show ?case by simp
next
  case (Suc k)
  let ?s1 = "v_bubble_step j s"
  from Suc.prems v_bubble_step_list[of j s] have
    p1: "perm_in 0 (j + 2) (fst s) (fst ?s1)" and m1: "\<forall>t<j + 1. fst ?s1 ! t \<le> fst ?s1 ! (j + 1)"
    by simp_all
  from Suc.prems have "j + 1 + k < length (fst ?s1)" by simp
  from Suc.IH[OF this m1] have
    p2: "perm_in 0 (j + 1 + k + 1) (fst ?s1) (fst (v_bubble_inner k (j + 1) ?s1))" and
    m2: "\<forall>t<j + 1 + k. fst (v_bubble_inner k (j + 1) ?s1) ! t \<le> fst (v_bubble_inner k (j + 1) ?s1) ! (j + 1 + k)"
    by simp_all
  from perm_in_mono[OF p1, of 0 "j + 1 + k + 1"] p2
  have "perm_in 0 (j + 1 + k + 1) (fst s) (fst (v_bubble_inner k (j + 1) ?s1))"
    by (auto intro: perm_in_trans)
  with m2 show ?case by (simp add: add.commute add.left_commute)
qed

text \<open>
  The invariant of the passes: the elements from \<open>m\<close> on are in order and none is
  below an element of the prefix before \<open>m\<close>.
\<close>

definition tail_sorted :: "nat \<Rightarrow> real list \<Rightarrow> bool" where
  "tail_sorted m xs \<longleftrightarrow>
     sorted_in m (length xs) xs \<and> (\<forall>s t. s < m \<and> m \<le> t \<and> t < length xs \<longrightarrow> xs ! s \<le> xs ! t)"

lemma tail_sorted_pass:
  assumes inv: "tail_sorted (Suc m) xs" and m: "Suc m \<le> length xs"
    and p: "perm_in 0 (Suc m) xs ys" and top: "\<forall>t<m. ys ! t \<le> ys ! m"
  shows "tail_sorted m ys"
proof -
  from p have len: "length ys = length xs" by (rule perm_in_length)
  have same: "\<And>t. Suc m \<le> t \<Longrightarrow> t < length xs \<Longrightarrow> ys ! t = xs ! t"
    using perm_in_outside[OF p] by simp
  have low: "\<And>s t. s \<le> m \<Longrightarrow> Suc m \<le> t \<Longrightarrow> t < length xs \<Longrightarrow> ys ! s \<le> xs ! t"
  proof -
    fix s t assume s: "s \<le> m" and t: "Suc m \<le> t" "t < length xs"
    from inv t have "\<forall>r. 0 \<le> r \<and> r < Suc m \<longrightarrow> xs ! r \<le> xs ! t"
      by (simp add: tail_sorted_def)
    from perm_in_all[where P = "\<lambda>v. v \<le> xs ! t", OF p m this, of s] s show "ys ! s \<le> xs ! t" by simp
  qed
  have "sorted_in m (length ys) ys"
    unfolding sorted_in_def
  proof (intro allI impI)
    fix s t assume st: "m \<le> s \<and> s \<le> t \<and> t < length ys"
    show "ys ! s \<le> ys ! t"
    proof (cases "s = m")
      case True
      show ?thesis
      proof (cases "t = m")
        case True
        with \<open>s = m\<close> show ?thesis by simp
      next
        case False
        with st True len have "Suc m \<le> t" "t < length xs" by auto
        with low[of s t] same[of t] True show ?thesis by simp
      qed
    next
      case False
      with st len have "Suc m \<le> s" "s \<le> t" "t < length xs" by auto
      with inv same[of s] same[of t] show ?thesis by (simp add: tail_sorted_def sorted_in_def)
    qed
  qed
  moreover have "\<forall>s t. s < m \<and> m \<le> t \<and> t < length ys \<longrightarrow> ys ! s \<le> ys ! t"
  proof (intro allI impI)
    fix s t assume st: "s < m \<and> m \<le> t \<and> t < length ys"
    show "ys ! s \<le> ys ! t"
    proof (cases "t = m")
      case True
      with st top show ?thesis by simp
    next
      case False
      with st len have "Suc m \<le> t" "t < length xs" "s \<le> m" by auto
      with low[of s t] same[of t] show ?thesis by simp
    qed
  qed
  ultimately show ?thesis by (simp add: tail_sorted_def)
qed

lemma v_bubble_outer_list:
  "m \<le> length (fst s) \<Longrightarrow> tail_sorted m (fst s) \<Longrightarrow>
     sorted (fst (v_bubble_outer m s)) \<and> mset (fst (v_bubble_outer m s)) = mset (fst s)"
proof (induction m arbitrary: s)
  case 0
  then have "sorted_in 0 (length (fst s)) (fst s)" by (simp add: tail_sorted_def)
  then show ?case by (simp add: sorted_in_all)
next
  case (Suc m)
  show ?case
  proof (cases "m = 0")
    case True
    with Suc.prems have "sorted_in 0 (length (fst s)) (fst s)"
      unfolding tail_sorted_def sorted_in_def
      by (metis Suc_leI le_neq_implies_less less_Suc0 order_refl zero_le)
    with True show ?thesis by (simp add: sorted_in_all)
  next
    case False
    let ?s1 = "v_bubble_inner m 0 s"
    from Suc.prems v_bubble_inner_list[of 0 m s] have
      p: "perm_in 0 (Suc m) (fst s) (fst ?s1)" and top: "\<forall>t<m. fst ?s1 ! t \<le> fst ?s1 ! m"
      by simp_all
    from tail_sorted_pass[OF Suc.prems(2) Suc.prems(1) p top] have inv: "tail_sorted m (fst ?s1)" .
    from Suc.prems have "m \<le> length (fst ?s1)" by simp
    from Suc.IH[OF this inv] perm_in_mset[OF p] False show ?thesis by simp
  qed
qed

lemma v_bubbleSort_sorts:
  "sorted (fst (v_bubbleSort s)) \<and> mset (fst (v_bubbleSort s)) = mset (fst s)"
  unfolding v_bubbleSort_def
  by (rule v_bubble_outer_list) (simp_all add: tail_sorted_def sorted_in_def)

subsection \<open>Quick sort on the values\<close>

text \<open>
  The boundary of \<^verbatim>\<open>partition\<close> is kept as \<open>p = i + 1\<close>, the index where the next
  smaller element goes, which is never negative.
\<close>

definition v_partition_step :: "real \<Rightarrow> nat \<Rightarrow> nat \<times> vstate \<Rightarrow> nat \<times> vstate" where
  "v_partition_step pivot j c =
     (let p = fst c; xs = fst (snd c); st = count_comparison (snd (snd c)) in
      if xs ! j < pivot then (p + 1, swap_list p j xs, count_swap st) else (p, xs, st))"

fun v_partition_loop :: "real \<Rightarrow> nat \<Rightarrow> nat \<Rightarrow> nat \<times> vstate \<Rightarrow> nat \<times> vstate" where
  "v_partition_loop pivot 0 j c = c"
| "v_partition_loop pivot (Suc k) j c = v_partition_loop pivot k (j + 1) (v_partition_step pivot j c)"

definition v_partition :: "nat \<Rightarrow> nat \<Rightarrow> vstate \<Rightarrow> nat \<times> vstate" where
  "v_partition low high s =
     (let c = v_partition_loop (fst s ! high) (high - low) low (low, s); p = fst c in
      (p, swap_list p high (fst (snd c)), count_swap (snd (snd c))))"

lemma v_partition_step_fst:
  "fst c \<le> fst (v_partition_step pivot j c) \<and> fst (v_partition_step pivot j c) \<le> fst c + 1"
  by (simp add: v_partition_step_def Let_def)

lemma v_partition_loop_fst:
  "fst c \<le> fst (v_partition_loop pivot k j c) \<and> fst (v_partition_loop pivot k j c) \<le> fst c + k"
proof (induction k arbitrary: j c)
  case 0
  show ?case by simp
next
  case (Suc k)
  from Suc.IH[where j = "j + 1" and c = "v_partition_step pivot j c"] v_partition_step_fst[of c pivot j]
  show ?case by simp
qed

lemma v_partition_fst:
  "low \<le> high \<Longrightarrow> low \<le> fst (v_partition low high s) \<and> fst (v_partition low high s) \<le> high"
  using v_partition_loop_fst[of "(low, s)" "fst s ! high" "high - low" low]
  by (simp add: v_partition_def Let_def)

function v_quick :: "nat \<Rightarrow> nat \<Rightarrow> vstate \<Rightarrow> vstate" where
  "v_quick low high s =
     (if low < high then
        let r = v_partition low high s; p = fst r in
        v_quick (p + 1) high (v_quick low (p - 1) (snd r))
      else s)"
  by pat_completeness auto
termination
proof (relation "measure (\<lambda>(low, high, s). high - low)", goal_cases)
  case 1
  show ?case by simp
next
  case (2 low high s r p)
  with v_partition_fst[of low high s] show ?case by auto
next
  case (3 low high s r p)
  with v_partition_fst[of low high s] show ?case by auto
qed

declare v_quick.simps [simp del]

definition v_quickSort :: "vstate \<Rightarrow> vstate" where
  "v_quickSort s = v_quick 0 (length (fst s) - 1) s"

lemma length_v_partition_step [simp]:
  "length (fst (snd (v_partition_step pivot j c))) = length (fst (snd c))"
  by (simp add: v_partition_step_def Let_def)

lemma length_v_partition_loop [simp]:
  "length (fst (snd (v_partition_loop pivot k j c))) = length (fst (snd c))"
  by (induction k arbitrary: j c) simp_all

lemma length_v_partition [simp]: "length (fst (snd (v_partition low high s))) = length (fst s)"
  by (simp add: v_partition_def Let_def)

lemma length_v_quick [simp]: "length (fst (v_quick low high s)) = length (fst s)"
proof (induction low high s rule: v_quick.induct)
  case (1 low high s)
  show ?case
  proof (cases "low < high")
    case True
    with 1 show ?thesis by (subst v_quick.simps) (simp add: Let_def)
  next
    case False
    then show ?thesis by (subst v_quick.simps) simp
  qed
qed

definition pvals :: "int \<times> state \<Rightarrow> nat \<times> vstate" where
  "pvals c = (nat (fst c + 1), vals (snd c))"

lemma elem_None_iff [simp]: "elem a i = None \<longleftrightarrow> \<not> (0 \<le> i \<and> i < int (length a))"
  by (simp add: elem_def)

lemma partition_step_refines:
  assumes "0 \<le> j" "j < int (length (fst (snd c)))" "0 \<le> high" "high < int (length (fst (snd c)))"
    "- 1 \<le> fst c" "fst c < j"
  shows "\<exists>c'. partition_step isBenchmark pivot high j c = Inr c' \<and>
           pvals c' = v_partition_step pivot (nat j) (pvals c)"
proof -
  obtain i a st where c: "c = (i, a, st)" by (cases c) auto
  from assms c have r: "nat i < length a" if "0 \<le> i" using that by auto
  from assms c have n: "nat (i + 1) < length a" "nat j < length a" "nat (i + 1 + 1) = nat (i + 1) + 1"
    by auto
  from assms c n show ?thesis
    by (simp add: partition_step_def v_partition_step_def pvals_def Let_def map_swap_list)
qed

lemma pvals_simps [simp]:
  "fst (pvals c) = nat (fst c + 1)" "snd (pvals c) = vals (snd c)"
  by (simp_all add: pvals_def)

lemma partition_loop_refines:
  "0 \<le> j \<Longrightarrow> j \<le> high \<Longrightarrow> high < int (length (fst (snd c))) \<Longrightarrow> - 1 \<le> fst c \<Longrightarrow> fst c < j \<Longrightarrow>
     \<exists>c'. partition_loop isBenchmark pivot high j c = Inr c' \<and>
          pvals c' = v_partition_loop pivot (nat (high - j)) (nat j) (pvals c)"
proof (induction isBenchmark pivot high j c rule: partition_loop.induct)
  case (1 isBenchmark pivot high j c)
  show ?case
  proof (cases "j < high")
    case True
    with "1.prems" obtain c1 where c1: "partition_step isBenchmark pivot high j c = Inr c1"
      and v1: "pvals c1 = v_partition_step pivot (nat j) (pvals c)"
      using partition_step_refines[of j c high isBenchmark pivot] by auto
    from v1 have "length (fst (snd (pvals c1))) = length (fst (snd (pvals c)))"
      by simp
    then have len: "length (fst (snd c1)) = length (fst (snd c))" by simp
    from partition_step_fst[OF c1] "1.prems" len True
    have "0 \<le> j + 1" "j + 1 \<le> high" "high < int (length (fst (snd c1)))" "- 1 \<le> fst c1" "fst c1 < j + 1"
      by auto
    from "1.IH"[OF True c1 this] obtain c' where
      r: "partition_loop isBenchmark pivot high (j + 1) c1 = Inr c'" and
      v: "pvals c' = v_partition_loop pivot (nat (high - (j + 1))) (nat (j + 1)) (pvals c1)" by blast
    from True "1.prems" have k: "nat (high - j) = Suc (nat (high - (j + 1)))"
      and j: "nat (j + 1) = nat j + 1" by auto
    from True c1 r have "partition_loop isBenchmark pivot high j c = Inr c'"
      by (subst partition_loop.simps) simp
    with v v1 k j show ?thesis by simp
  next
    case False
    with "1.prems" show ?thesis by (subst partition_loop.simps) simp
  qed
qed

lemma partition_qs_refines:
  assumes "0 \<le> low" "low \<le> high" "high < int (length (fst s))"
  shows "\<exists>r. partition_qs isBenchmark low high s = Inr r \<and>
           (nat (fst r), vals (snd r)) = v_partition (nat low) (nat high) (vals s)"
proof -
  let ?pivot = "value (fst s ! nat high)"
  from assms obtain c where c: "partition_loop isBenchmark ?pivot high low (low - 1, s) = Inr c"
    and v: "pvals c = v_partition_loop ?pivot (nat (high - low)) (nat low) (pvals (low - 1, s))"
    using partition_loop_refines[of low high "(low - 1, s)" isBenchmark ?pivot] by auto
  from v have "length (fst (snd (pvals c))) = length (fst (snd (pvals (low - 1, s))))"
    by simp
  then have len: "length (fst (snd c)) = length (fst s)" by simp
  from partition_loop_fst[OF c] assms have b: "low - 1 \<le> fst c" "fst c \<le> high - 1" by auto
  from assms have p: "value_of (elem (fst s) high) = Inr ?pivot" by simp
  from assms have n: "nat high < length (fst s)" "nat (high - low) = nat high - nat low"
    "nat (low - 1 + 1) = nat low" by auto
  from b assms len have sw: "swap_elems (fst c + 1) high (fst (snd c))
      = Inr (swap_list (nat (fst c + 1)) (nat high) (fst (snd c)))"
    by simp
  from b assms len have m: "nat (fst c + 1) < length (fst (snd c))" "nat high < length (fst (snd c))"
    by auto
  from v n have w: "v_partition_loop ?pivot (nat high - nat low) (nat low) (nat low, vals s)
      = (nat (fst c + 1), vals (snd c))"
    by (simp add: pvals_def)
  from p c sw m n show ?thesis
    by (simp add: partition_qs_def v_partition_def Let_def map_swap_list w)
qed

lemma quickSortHelper_refines:
  "0 \<le> low \<Longrightarrow> high < int (length (fst s)) \<Longrightarrow>
     \<exists>s'. quickSortHelper isBenchmark low high s = Inr s' \<and>
          vals s' = v_quick (nat low) (nat high) (vals s)"
proof (induction isBenchmark low high s rule: quickSortHelper.induct)
  case (1 isBenchmark low high s)
  show ?case
  proof (cases "low < high")
    case True
    with "1.prems" obtain r where r: "partition_qs isBenchmark low high s = Inr r"
      and v: "(nat (fst r), vals (snd r)) = v_partition (nat low) (nat high) (vals s)"
      using partition_qs_refines[of low high s isBenchmark] by auto
    from partition_qs_bounds[OF r] True have b: "low \<le> fst r" "fst r \<le> high" by auto
    from v have "length (fst (snd (nat (fst r), vals (snd r)))) = length (fst (vals s))"
      by (simp only: length_v_partition)
    then have len: "length (fst (snd r)) = length (fst s)" by simp
    from b "1.prems" len have "0 \<le> low" "fst r - 1 < int (length (fst (snd r)))" by auto
    from "1.IH"(1)[OF True r refl this] obtain s1 where
      s1: "quickSortHelper isBenchmark low (fst r - 1) (snd r) = Inr s1" and
      v1: "vals s1 = v_quick (nat low) (nat (fst r - 1)) (vals (snd r))" by blast
    from v1 have "length (fst (vals s1)) = length (fst (vals (snd r)))" by simp
    with len have len1: "length (fst s1) = length (fst s)" by simp
    from b "1.prems" len1 have "0 \<le> fst r + 1" "high < int (length (fst s1))" by auto
    from "1.IH"(2)[OF True r refl s1 this] obtain s' where
      s': "quickSortHelper isBenchmark (fst r + 1) high s1 = Inr s'" and
      v': "vals s' = v_quick (nat (fst r + 1)) (nat high) (vals s1)" by blast
    from True r s1 s' have "quickSortHelper isBenchmark low high s = Inr s'"
      by (subst quickSortHelper.simps) (simp add: Let_def)
    moreover from b "1.prems" have n: "nat (fst r + 1) = nat (fst r) + 1" "nat (fst r - 1) = nat (fst r) - 1"
      "nat low < nat high" using True by auto
    have "v_quick (nat low) (nat high) (vals s) = v_quick (nat (fst r) + 1) (nat high)
            (v_quick (nat low) (nat (fst r) - 1) (vals (snd r)))"
      using n(3) by (subst v_quick.simps) (simp add: Let_def flip: v)
    ultimately show ?thesis using v' v1 n by simp
  next
    case False
    with "1.prems" have "\<not> nat low < nat high" by auto
    with False show ?thesis
      by (subst quickSortHelper.simps, subst v_quick.simps) simp
  qed
qed

lemma in_array_all: "in_array a (map (\<lambda>k. (int k, fl, v)) [0..<length a])"
  by (simp add: in_array_def list_all_iff)

lemma quickSort_refines:
  "\<exists>s'. quickSort elapsed arr currentStats isBenchmark = Inr s' \<and>
        vals s' = finished elapsed (v_quickSort (vals (arr, currentStats)))"
proof -
  obtain s1 where s1: "quickSortHelper isBenchmark 0 (int (length arr) - 1) (arr, currentStats) = Inr s1"
    and v1: "vals s1 = v_quick 0 (nat (int (length arr) - 1)) (vals (arr, currentStats))"
    using quickSortHelper_refines[of 0 "int (length arr) - 1" "(arr, currentStats)" isBenchmark] by auto
  have n: "nat (int (length arr) - 1) = length arr - 1" by auto
  with s1 v1[symmetric] show ?thesis
    by (simp add: quickSort_def Let_def v_quickSort_def finished_def in_array_all)
qed

subsection \<open>Quick sort sorts\<close>

lemma v_partition_step_inv:
  assumes "low \<le> fst c" "fst c \<le> j" "j < high" "high < length (fst (snd c))"
    "\<forall>t. low \<le> t \<and> t < fst c \<longrightarrow> fst (snd c) ! t < pivot"
    "\<forall>t. fst c \<le> t \<and> t < j \<longrightarrow> pivot \<le> fst (snd c) ! t"
  shows "low \<le> fst (v_partition_step pivot j c) \<and> fst (v_partition_step pivot j c) \<le> j + 1 \<and>
         perm_in low high (fst (snd c)) (fst (snd (v_partition_step pivot j c))) \<and>
         (\<forall>t. low \<le> t \<and> t < fst (v_partition_step pivot j c) \<longrightarrow>
              fst (snd (v_partition_step pivot j c)) ! t < pivot) \<and>
         (\<forall>t. fst (v_partition_step pivot j c) \<le> t \<and> t < j + 1 \<longrightarrow>
              pivot \<le> fst (snd (v_partition_step pivot j c)) ! t)"
proof -
  obtain p xs st where c: "c = (p, xs, st)" by (cases c) auto
  show ?thesis
  proof (cases "xs ! j < pivot")
    case True
    from assms c have p: "perm_in low high xs (swap_list p j xs)"
      by (intro perm_in_swap) auto
    have a: "\<forall>t. low \<le> t \<and> t < p + 1 \<longrightarrow> swap_list p j xs ! t < pivot"
    proof (intro allI impI)
      fix t assume t: "low \<le> t \<and> t < p + 1"
      show "swap_list p j xs ! t < pivot"
      proof (cases "t = p")
        case True
        with assms c \<open>xs ! j < pivot\<close> show ?thesis by (auto simp: swap_list_def nth_list_update)
      next
        case False
        with t assms c show ?thesis by (auto simp: swap_list_def nth_list_update)
      qed
    qed
    have b: "\<forall>t. p + 1 \<le> t \<and> t < j + 1 \<longrightarrow> pivot \<le> swap_list p j xs ! t"
    proof (intro allI impI)
      fix t assume t: "p + 1 \<le> t \<and> t < j + 1"
      show "pivot \<le> swap_list p j xs ! t"
      proof (cases "t = j")
        case True
        with t assms c have "pivot \<le> xs ! p" by auto
        with True t assms c show ?thesis by (auto simp: swap_list_def nth_list_update)
      next
        case False
        with t assms c show ?thesis by (auto simp: swap_list_def nth_list_update)
      qed
    qed
    from True p a b assms c show ?thesis by (simp add: v_partition_step_def Let_def)
  next
    case False
    have "\<forall>t. p \<le> t \<and> t < j + 1 \<longrightarrow> pivot \<le> xs ! t"
    proof (intro allI impI)
      fix t assume t: "p \<le> t \<and> t < j + 1"
      show "pivot \<le> xs ! t"
      proof (cases "t = j")
        case True
        with False show ?thesis by simp
      next
        case F: False
        with t assms c show ?thesis by auto
      qed
    qed
    with False assms c show ?thesis by (simp add: v_partition_step_def Let_def)
  qed
qed

lemma v_partition_loop_inv:
  "low \<le> fst c \<Longrightarrow> fst c \<le> j \<Longrightarrow> j + k = high \<Longrightarrow> high < length (fst (snd c)) \<Longrightarrow>
   \<forall>t. low \<le> t \<and> t < fst c \<longrightarrow> fst (snd c) ! t < pivot \<Longrightarrow>
   \<forall>t. fst c \<le> t \<and> t < j \<longrightarrow> pivot \<le> fst (snd c) ! t \<Longrightarrow>
     low \<le> fst (v_partition_loop pivot k j c) \<and> fst (v_partition_loop pivot k j c) \<le> high \<and>
     perm_in low high (fst (snd c)) (fst (snd (v_partition_loop pivot k j c))) \<and>
     (\<forall>t. low \<le> t \<and> t < fst (v_partition_loop pivot k j c) \<longrightarrow>
          fst (snd (v_partition_loop pivot k j c)) ! t < pivot) \<and>
     (\<forall>t. fst (v_partition_loop pivot k j c) \<le> t \<and> t < high \<longrightarrow>
          pivot \<le> fst (snd (v_partition_loop pivot k j c)) ! t)"
proof (induction k arbitrary: j c)
  case 0
  then show ?case by simp
next
  case (Suc k)
  let ?c1 = "v_partition_step pivot j c"
  from Suc.prems have "j < high" by simp
  from v_partition_step_inv[OF Suc.prems(1,2) this Suc.prems(4,5,6)] have
    s: "low \<le> fst ?c1" "fst ?c1 \<le> j + 1" "perm_in low high (fst (snd c)) (fst (snd ?c1))"
      "\<forall>t. low \<le> t \<and> t < fst ?c1 \<longrightarrow> fst (snd ?c1) ! t < pivot"
      "\<forall>t. fst ?c1 \<le> t \<and> t < j + 1 \<longrightarrow> pivot \<le> fst (snd ?c1) ! t"
    by simp_all
  from Suc.prems have "j + 1 + k = high" "high < length (fst (snd ?c1))" by simp_all
  from Suc.IH[OF s(1,2) this s(4,5)] s(3) show ?case
    by (auto intro: perm_in_trans)
qed

lemma v_partition_inv:
  assumes "low \<le> high" "high < length (fst s)"
  shows "low \<le> fst (v_partition low high s) \<and> fst (v_partition low high s) \<le> high \<and>
         perm_in low (Suc high) (fst s) (fst (snd (v_partition low high s))) \<and>
         (\<forall>t. low \<le> t \<and> t < fst (v_partition low high s) \<longrightarrow>
              fst (snd (v_partition low high s)) ! t < fst (snd (v_partition low high s)) ! fst (v_partition low high s)) \<and>
         (\<forall>t. fst (v_partition low high s) < t \<and> t \<le> high \<longrightarrow>
              fst (snd (v_partition low high s)) ! fst (v_partition low high s) \<le> fst (snd (v_partition low high s)) ! t)"
proof -
  let ?pivot = "fst s ! high"
  let ?c = "v_partition_loop ?pivot (high - low) low (low, s)"
  let ?p = "fst ?c" and ?zs = "fst (snd ?c)"
  from assms have
    l: "low \<le> ?p" "?p \<le> high" and
    pz: "perm_in low high (fst s) ?zs" and
    a: "\<forall>t. low \<le> t \<and> t < ?p \<longrightarrow> ?zs ! t < ?pivot" and
    b: "\<forall>t. ?p \<le> t \<and> t < high \<longrightarrow> ?pivot \<le> ?zs ! t"
    using v_partition_loop_inv[of low "(low, s)" low "high - low" high ?pivot] by simp_all
  from pz have len: "length ?zs = length (fst s)" by (rule perm_in_length)
  from perm_in_outside[OF pz, of high] assms have zh: "?zs ! high = ?pivot" by simp
  let ?ys = "swap_list ?p high ?zs"
  from l assms len have "perm_in low (Suc high) ?zs ?ys" by (intro perm_in_swap) auto
  with perm_in_mono[OF pz, of low "Suc high"] have py: "perm_in low (Suc high) (fst s) ?ys"
    by (auto intro: perm_in_trans)
  from l assms len zh have yp: "?ys ! ?p = ?pivot" by (auto simp: swap_list_def nth_list_update)
  have ya: "\<forall>t. low \<le> t \<and> t < ?p \<longrightarrow> ?ys ! t < ?pivot"
    using a l assms len by (auto simp: swap_list_def nth_list_update)
  have yb: "\<forall>t. ?p < t \<and> t \<le> high \<longrightarrow> ?pivot \<le> ?ys ! t"
  proof (intro allI impI)
    fix t assume t: "?p < t \<and> t \<le> high"
    show "?pivot \<le> ?ys ! t"
    proof (cases "t = high")
      case True
      with t b have "?pivot \<le> ?zs ! ?p" by auto
      with True t assms len show ?thesis by (auto simp: swap_list_def nth_list_update)
    next
      case False
      with t b have "?pivot \<le> ?zs ! t" by auto
      with False t assms len show ?thesis by (auto simp: swap_list_def nth_list_update)
    qed
  qed
  have r: "fst (v_partition low high s) = ?p" "fst (snd (v_partition low high s)) = ?ys"
    by (simp_all add: v_partition_def Let_def)
  from l py ya yb yp show ?thesis unfolding r by simp
qed

lemma sorted_in_small:
  assumes "u \<le> Suc l"
  shows "sorted_in l u xs"
  unfolding sorted_in_def
proof (intro allI impI)
  fix s t assume "l \<le> s \<and> s \<le> t \<and> t < u"
  with assms have "s = t" by linarith
  then show "xs ! s \<le> xs ! t" by simp
qed

lemma v_quick_sorts:
  "high < length (fst s) \<Longrightarrow>
     perm_in low (Suc high) (fst s) (fst (v_quick low high s)) \<and>
     sorted_in low (Suc high) (fst (v_quick low high s))"
proof (induction low high s rule: v_quick.induct)
  case (1 low high s)
  show ?case
  proof (cases "low < high")
    case False
    then show ?thesis by (subst (1 2) v_quick.simps) (simp add: sorted_in_small)
  next
    case True
    define r where "r = v_partition low high s"
    define p where "p = fst r"
    define ys where "ys = fst (snd r)"
    define s1 where "s1 = v_quick low (p - 1) (snd r)"
    define s2 where "s2 = v_quick (p + 1) high s1"
    have res: "v_quick low high s = s2"
      using True by (subst v_quick.simps) (simp add: Let_def r_def p_def s1_def s2_def)
    from True "1.prems" v_partition_inv[of low high s] have
      pb: "low \<le> p" "p \<le> high" and
      py: "perm_in low (Suc high) (fst s) ys" and
      ya: "\<forall>t. low \<le> t \<and> t < p \<longrightarrow> ys ! t < ys ! p" and
      yb: "\<forall>t. p < t \<and> t \<le> high \<longrightarrow> ys ! p \<le> ys ! t"
      by (simp_all add: r_def p_def ys_def)
    from py have leny: "length ys = length (fst s)" by (rule perm_in_length)
    \<comment> \<open>the left part\<close>
    have left: "perm_in low p ys (fst s1) \<and> sorted_in low p (fst s1)"
    proof (cases "low < p")
      case True
      with pb "1.prems" leny have "p - 1 < length (fst (snd r))" by (simp add: ys_def)
      from "1.IH"(1)[OF \<open>low < high\<close> r_def p_def this] True show ?thesis
        by (simp add: s1_def ys_def)
    next
      case False
      then have "\<not> low < p - 1" by simp
      then have "s1 = snd r" unfolding s1_def by (subst v_quick.simps) simp
      with False show ?thesis by (simp add: ys_def sorted_in_small)
    qed
    then have p1: "perm_in low p ys (fst s1)" and so1: "sorted_in low p (fst s1)" by simp_all
    from p1 leny have len1: "length (fst s1) = length (fst s)" by (simp add: perm_in_def)
    \<comment> \<open>the right part\<close>
    from "1.prems" len1 have "high < length (fst (v_quick low (p - 1) (snd r)))" by (simp add: s1_def)
    from "1.IH"(2)[OF \<open>low < high\<close> r_def p_def this] have
      p2: "perm_in (p + 1) (Suc high) (fst s1) (fst s2)" and so2: "sorted_in (p + 1) (Suc high) (fst s2)"
      by (simp_all add: s2_def s1_def)
    from p2 len1 have len2: "length (fst s2) = length (fst s)" by (simp add: perm_in_def)
    \<comment> \<open>the three parts of the result\<close>
    have below: "fst s2 ! t < ys ! p" if "low \<le> t" "t < p" for t
    proof -
      from pb "1.prems" leny have "p \<le> length ys" by simp
      from perm_in_all[where P = "\<lambda>v. v < ys ! p", OF p1 this ya that] have "fst s1 ! t < ys ! p" .
      moreover from perm_in_outside[OF p2, of t] that pb "1.prems" len1 have "fst s2 ! t = fst s1 ! t" by simp
      ultimately show ?thesis by simp
    qed
    have pivot: "fst s2 ! p = ys ! p"
    proof -
      from perm_in_outside[OF p1, of p] pb "1.prems" leny have "fst s1 ! p = ys ! p" by simp
      moreover from perm_in_outside[OF p2, of p] pb "1.prems" len1 have "fst s2 ! p = fst s1 ! p" by simp
      ultimately show ?thesis by simp
    qed
    have above: "ys ! p \<le> fst s2 ! t" if "p < t" "t \<le> high" for t
    proof -
      have "\<forall>t. p + 1 \<le> t \<and> t < Suc high \<longrightarrow> ys ! p \<le> fst s1 ! t"
      proof (intro allI impI)
        fix t assume t: "p + 1 \<le> t \<and> t < Suc high"
        with perm_in_outside[OF p1, of t] "1.prems" leny have "fst s1 ! t = ys ! t" by simp
        with yb t show "ys ! p \<le> fst s1 ! t" by simp
      qed
      moreover from "1.prems" len1 have "Suc high \<le> length (fst s1)" by simp
      ultimately show ?thesis
        using perm_in_all[where P = "\<lambda>v. ys ! p \<le> v", OF p2, of t] that by simp
    qed
    have low_same: "fst s2 ! t = fst s1 ! t" if "t < p" for t
      using perm_in_outside[OF p2, of t] that pb "1.prems" len1 by simp
    have "sorted_in low (Suc high) (fst s2)"
      unfolding sorted_in_def
    proof (intro allI impI)
      fix a b assume ab: "low \<le> a \<and> a \<le> b \<and> b < Suc high"
      consider "b < p" | "a < p" "b = p" | "a < p" "p < b" | "a = p" "b = p" | "a = p" "p < b" | "p < a"
        using ab by linarith
      then show "fst s2 ! a \<le> fst s2 ! b"
      proof cases
        case 1
        with ab so1 have "fst s1 ! a \<le> fst s1 ! b" by (simp add: sorted_in_def)
        with 1 ab low_same[of a] low_same[of b] show ?thesis by simp
      next
        case 2
        with ab below[of a] pivot show ?thesis by simp
      next
        case 3
        with ab below[of a] above[of b] show ?thesis by simp
      next
        case 4
        then show ?thesis by simp
      next
        case 5
        with ab above[of b] pivot show ?thesis by simp
      next
        case 6
        with ab so2 show ?thesis by (simp add: sorted_in_def)
      qed
    qed
    moreover have "perm_in low (Suc high) (fst s) (fst s2)"
    proof -
      from p1 pb have "perm_in low (Suc high) ys (fst s1)" by (auto intro: perm_in_mono)
      moreover from p2 pb have "perm_in low (Suc high) (fst s1) (fst s2)" by (auto intro: perm_in_mono)
      ultimately show ?thesis using py by (auto intro: perm_in_trans)
    qed
    ultimately show ?thesis by (simp add: res)
  qed
qed

lemma v_quickSort_sorts:
  "sorted (fst (v_quickSort s)) \<and> mset (fst (v_quickSort s)) = mset (fst s)"
proof (cases "fst s = []")
  case True
  then show ?thesis unfolding v_quickSort_def by (subst (1 2) v_quick.simps) simp
next
  case False
  then have "length (fst s) - 1 < length (fst s)" by simp
  from v_quick_sorts[OF this, of 0] False have
    a: "perm_in 0 (length (fst s)) (fst s) (fst (v_quickSort s))" and
    b: "sorted_in 0 (length (fst s)) (fst (v_quickSort s))"
    by (simp_all add: v_quickSort_def)
  from a have "length (fst (v_quickSort s)) = length (fst s)" by (rule perm_in_length)
  with b have "sorted (fst (v_quickSort s))" by (simp flip: sorted_in_all)
  with perm_in_mset[OF a] show ?thesis by simp
qed

subsection \<open>Merge sort on the values\<close>

type_synonym v_merge_state = "nat \<times> nat \<times> nat \<times> vstate"

function v_merge_loop :: "real list \<Rightarrow> real list \<Rightarrow> nat \<Rightarrow> nat \<Rightarrow> nat \<Rightarrow> vstate \<Rightarrow> v_merge_state" where
  "v_merge_loop L R i j k s =
     (if i < length L \<and> j < length R then
        if L ! i \<le> R ! j
        then v_merge_loop L R (i + 1) j (k + 1) ((fst s)[k := L ! i], count_swap (count_comparison (snd s)))
        else v_merge_loop L R i (j + 1) (k + 1) ((fst s)[k := R ! j], count_swap (count_comparison (snd s)))
      else (i, j, k, s))"
  by pat_completeness auto
termination
  by (relation "measure (\<lambda>(L, R, i, j, k, s). (length L - i) + (length R - j))") auto

declare v_merge_loop.simps [simp del]

function v_drain :: "real list \<Rightarrow> nat \<Rightarrow> nat \<Rightarrow> vstate \<Rightarrow> nat \<times> vstate" where
  "v_drain X x k s =
     (if x < length X then v_drain X (x + 1) (k + 1) ((fst s)[k := X ! x], count_swap (snd s))
      else (k, s))"
  by pat_completeness auto
termination
  by (relation "measure (\<lambda>(X, x, k, s). length X - x)") auto

declare v_drain.simps [simp del]

definition v_finish :: "real list \<Rightarrow> real list \<Rightarrow> v_merge_state \<Rightarrow> vstate" where
  "v_finish L R c =
     (case c of (i, j, k, s) \<Rightarrow>
        let d = v_drain L i k s in snd (v_drain R j (fst d) (snd d)))"

definition v_merge :: "nat \<Rightarrow> nat \<Rightarrow> nat \<Rightarrow> vstate \<Rightarrow> vstate" where
  "v_merge left mid right s =
     (let L = take (mid + 1 - left) (drop left (fst s));
          R = take (right - mid) (drop (mid + 1) (fst s))
      in v_finish L R (v_merge_loop L R 0 0 left s))"

function v_msort :: "nat \<Rightarrow> nat \<Rightarrow> vstate \<Rightarrow> vstate" where
  "v_msort left right s =
     (if left < right then
        let mid = (left + right) div 2 in
        v_merge left mid right (v_msort (mid + 1) right (v_msort left mid s))
      else s)"
  by pat_completeness auto
termination
  by (relation "measure (\<lambda>(left, right, s). right - left)") auto

declare v_msort.simps [simp del]

definition v_mergeSort :: "vstate \<Rightarrow> vstate" where
  "v_mergeSort s = v_msort 0 (length (fst s) - 1) s"

definition mvals :: "merge_state \<Rightarrow> v_merge_state" where
  "mvals c = (case c of (i, j, k, s) \<Rightarrow> (nat i, nat j, nat k, vals s))"

lemma copy_bar_elem [simp]:
  "0 \<le> i \<Longrightarrow> i < int (length a) \<Longrightarrow> copy_bar (elem a i) = Inr ((a ! nat i)\<lparr>isComparing := False\<rparr>)"
  by (simp add: copy_bar_def elem_def)

lemma assign_ok [simp]:
  "0 \<le> k \<Longrightarrow> k < int (length a) \<Longrightarrow> assign k b a = Inr (a[nat k := b])"
  by (simp add: assign_def)

lemma vals_eq_length: "vals s' = v \<Longrightarrow> length (fst s') = length (fst v)"
  by (auto simp: vals_def)

lemma merge_step_refines:
  assumes "0 \<le> i" "i < int (length L)" "0 \<le> j" "j < int (length R)" "0 \<le> k" "k < int (length (fst s))"
  shows "\<exists>i' j' s'. merge_step isBenchmark L R (i, j, k, s) = Inr (i', j', k + 1, s') \<and>
           (if value (L ! nat i) \<le> value (R ! nat j)
            then i' = i + 1 \<and> j' = j \<and>
                 vals s' = ((map value (fst s))[nat k := value (L ! nat i)], count_swap (count_comparison (snd s)))
            else i' = i \<and> j' = j + 1 \<and>
                 vals s' = ((map value (fst s))[nat k := value (R ! nat j)], count_swap (count_comparison (snd s))))"
  using assms by (cases s) (simp add: merge_step_def Let_def map_update)

lemma merge_loop_refines:
  "n1 = int (length L) \<Longrightarrow> n2 = int (length R) \<Longrightarrow>
   0 \<le> fst c \<Longrightarrow> 0 \<le> fst (snd c) \<Longrightarrow> 0 \<le> fst (snd (snd c)) \<Longrightarrow>
   fst (snd (snd c)) + (n1 - fst c) + (n2 - fst (snd c)) \<le> int (length (fst (snd (snd (snd c))))) \<Longrightarrow>
     \<exists>c'. merge_loop isBenchmark L R n1 n2 c = Inr c' \<and>
          mvals c' = v_merge_loop (map value L) (map value R) (nat (fst c)) (nat (fst (snd c)))
                       (nat (fst (snd (snd c)))) (vals (snd (snd (snd c)))) \<and>
          0 \<le> fst c' \<and> 0 \<le> fst (snd c') \<and> 0 \<le> fst (snd (snd c'))"
proof (induction isBenchmark L R n1 n2 c rule: merge_loop.induct)
  case (1 isBenchmark L R n1 n2 c)
  obtain i j k s where c: "c = (i, j, k, s)" by (cases c) auto
  show ?case
  proof (cases "i < n1 \<and> j < n2")
    case True
    with "1.prems" c have r: "0 \<le> i" "i < int (length L)" "0 \<le> j" "j < int (length R)"
      "0 \<le> k" "k < int (length (fst s))" by auto
    from merge_step_refines[OF r, of isBenchmark] obtain i' j' s' where
      st: "merge_step isBenchmark L R (i, j, k, s) = Inr (i', j', k + 1, s')" and
      v: "if value (L ! nat i) \<le> value (R ! nat j)
            then i' = i + 1 \<and> j' = j \<and>
                 vals s' = ((map value (fst s))[nat k := value (L ! nat i)], count_swap (count_comparison (snd s)))
            else i' = i \<and> j' = j + 1 \<and>
                 vals s' = ((map value (fst s))[nat k := value (R ! nat j)], count_swap (count_comparison (snd s)))"
      by blast
    from v have len: "length (fst s') = length (fst s)"
      by (auto split: if_splits dest!: vals_eq_length)
    from v r "1.prems" c len have pre: "0 \<le> fst (i', j', k + 1, s')" "0 \<le> fst (snd (i', j', k + 1, s'))"
      "0 \<le> fst (snd (snd (i', j', k + 1, s')))"
      "fst (snd (snd (i', j', k + 1, s'))) + (n1 - fst (i', j', k + 1, s')) + (n2 - fst (snd (i', j', k + 1, s')))
         \<le> int (length (fst (snd (snd (snd (i', j', k + 1, s'))))))"
      by (auto split: if_splits)
    from True c have "fst c < n1 \<and> fst (snd c) < n2" by simp
    from "1.IH"[OF this st[folded c] "1.prems"(1,2) pre] obtain c' where
      l: "merge_loop isBenchmark L R n1 n2 (i', j', k + 1, s') = Inr c'" and
      w: "mvals c' = v_merge_loop (map value L) (map value R) (nat i') (nat j') (nat (k + 1)) (vals s')" and
      p: "0 \<le> fst c' \<and> 0 \<le> fst (snd c') \<and> 0 \<le> fst (snd (snd c'))"
      by auto
    from True st l c have m: "merge_loop isBenchmark L R n1 n2 c = Inr c'"
      by (subst merge_loop.simps) simp
    from r have n: "nat (i + 1) = nat i + 1" "nat (j + 1) = nat j + 1" "nat (k + 1) = nat k + 1"
      "nat i < length L" "nat j < length R" by auto
    have "v_merge_loop (map value L) (map value R) (nat i) (nat j) (nat k) (vals s)
        = v_merge_loop (map value L) (map value R) (nat i') (nat j') (nat (k + 1)) (vals s')"
      using v n by (subst v_merge_loop.simps) (auto split: if_splits)
    with m w p c show ?thesis by simp
  next
    case False
    with "1.prems" c have nf: "\<not> (nat i < length (map value L) \<and> nat j < length (map value R))" by auto
    from False c have nc: "\<not> (fst c < n1 \<and> fst (snd c) < n2)" by simp
    have a: "merge_loop isBenchmark L R n1 n2 c = Inr c"
      by (subst merge_loop.simps, subst if_not_P[OF nc]) simp
    have b: "v_merge_loop (map value L) (map value R) (nat i) (nat j) (nat k) (vals s)
        = (nat i, nat j, nat k, vals s)"
      by (subst v_merge_loop.simps, subst if_not_P[OF nf]) simp
    from a b c "1.prems" show ?thesis by (simp add: mvals_def)
  qed
qed

lemma merge_loop_counters:
  "merge_loop isBenchmark L R n1 n2 c = Inr c' \<Longrightarrow> fst c \<le> n1 \<Longrightarrow> fst (snd c) \<le> n2 \<Longrightarrow>
     fst c' \<le> n1 \<and> fst (snd c') \<le> n2 \<and>
     fst (snd (snd c')) + (n1 - fst c') + (n2 - fst (snd c'))
       = fst (snd (snd c)) + (n1 - fst c) + (n2 - fst (snd c))"
proof (induction isBenchmark L R n1 n2 c rule: merge_loop.induct)
  case (1 isBenchmark L R n1 n2 c)
  show ?case
  proof (cases "fst c < n1 \<and> fst (snd c) < n2")
    case True
    with "1.prems"(1) obtain c1 where st: "merge_step isBenchmark L R c = Inr c1"
      and l: "merge_loop isBenchmark L R n1 n2 c1 = Inr c'"
      by (subst (asm) merge_loop.simps) (auto simp: andThen_Inr_iff)
    obtain i j k s where c: "c = (i, j, k, s)" by (cases c) auto
    obtain i1 j1 k1 s1 where c1: "c1 = (i1, j1, k1, s1)" by (cases c1) auto
    from merge_step_counters[OF st[unfolded c c1]] have
      m: "(i1 = i + 1 \<and> j1 = j \<or> i1 = i \<and> j1 = j + 1) \<and> k1 = k + 1" .
    with True c c1 have "fst c1 \<le> n1" "fst (snd c1) \<le> n2" by auto
    from "1.IH"[OF True st l this] m c c1 show ?thesis by auto
  next
    case False
    with "1.prems" show ?thesis by (subst (asm) merge_loop.simps) auto
  qed
qed

lemma drain_counter:
  "drain isBenchmark X nx x k s = Inr d \<Longrightarrow> x \<le> nx \<Longrightarrow> fst d = k + (nx - x)"
proof (induction isBenchmark X nx x k s rule: drain.induct)
  case (1 isBenchmark X nx x k s)
  show ?case
  proof (cases "x < nx")
    case True
    with "1.prems"(1) obtain b a1 where b: "copy_bar (elem X x) = Inr b"
      and a1: "assign k b (fst s) = Inr a1"
      and r: "drain isBenchmark X nx (x + 1) (k + 1) (a1, count_swap (snd s)) = Inr d"
      by (subst (asm) drain.simps) (auto simp: andThen_Inr_iff)
    from "1.IH"[OF True b a1 r] True show ?thesis by simp
  next
    case False
    with "1.prems" show ?thesis by (subst (asm) drain.simps) auto
  qed
qed

lemma length_v_drain [simp]: "length (fst (snd (v_drain X x k s))) = length (fst s)"
proof (induction X x k s rule: v_drain.induct)
  case (1 X x k s)
  then show ?case by (subst v_drain.simps) simp
qed

lemma length_v_merge_loop [simp]:
  "length (fst (snd (snd (snd (v_merge_loop L R i j k s))))) = length (fst s)"
proof (induction L R i j k s rule: v_merge_loop.induct)
  case (1 L R i j k s)
  then show ?case by (subst v_merge_loop.simps) simp
qed

lemma length_v_merge [simp]: "length (fst (v_merge left mid right s)) = length (fst s)"
  by (simp add: v_merge_def v_finish_def Let_def split: prod.splits)
     (metis fst_conv length_v_drain length_v_merge_loop snd_conv)

lemma length_v_msort [simp]: "length (fst (v_msort left right s)) = length (fst s)"
proof (induction left right s rule: v_msort.induct)
  case (1 left right s)
  then show ?case by (subst v_msort.simps) (simp add: Let_def)
qed

lemma drain_refines:
  "nx = int (length X) \<Longrightarrow> 0 \<le> x \<Longrightarrow> 0 \<le> k \<Longrightarrow> k + (nx - x) \<le> int (length (fst s)) \<Longrightarrow>
     \<exists>d. drain isBenchmark X nx x k s = Inr d \<and>
         (nat (fst d), vals (snd d)) = v_drain (map value X) (nat x) (nat k) (vals s)"
proof (induction isBenchmark X nx x k s rule: drain.induct)
  case (1 isBenchmark X nx x k s)
  show ?case
  proof (cases "x < nx")
    case True
    let ?b = "(X ! nat x)\<lparr>isComparing := False\<rparr>"
    let ?a1 = "(fst s)[nat k := ?b]"
    from True "1.prems" have b: "copy_bar (elem X x) = Inr ?b" and a1: "assign k ?b (fst s) = Inr ?a1"
      by simp_all
    from True "1.prems" have "0 \<le> x + 1" "0 \<le> k + 1"
      "k + 1 + (nx - (x + 1)) \<le> int (length (fst (?a1, count_swap (snd s))))" by simp_all
    from "1.IH"[OF True b a1 "1.prems"(1) this] obtain d where
      d: "drain isBenchmark X nx (x + 1) (k + 1) (?a1, count_swap (snd s)) = Inr d" and
      v: "(nat (fst d), vals (snd d)) = v_drain (map value X) (nat (x + 1)) (nat (k + 1)) (vals (?a1, count_swap (snd s)))"
      by blast
    from True b a1 d have "drain isBenchmark X nx x k s = Inr d"
      by (subst drain.simps) simp
    moreover from True "1.prems" have n: "nat (x + 1) = nat x + 1" "nat (k + 1) = nat k + 1" "nat x < length X"
      by auto
    have "v_drain (map value X) (nat x) (nat k) (vals s)
        = v_drain (map value X) (nat (x + 1)) (nat (k + 1)) (vals (?a1, count_swap (snd s)))"
      using n by (subst v_drain.simps) (simp add: map_update)
    ultimately show ?thesis using v by simp
  next
    case False
    with "1.prems" have "\<not> nat x < length (map value X)" by auto
    with False show ?thesis by (subst drain.simps, subst v_drain.simps) simp
  qed
qed

lemma slice_in_array:
  "0 \<le> b \<Longrightarrow> b \<le> e \<Longrightarrow> e \<le> int (length a) \<Longrightarrow> slice a b e = take (nat (e - b)) (drop (nat b) a)"
  by (simp add: slice_def Let_def min_def)

lemma merge_runs_refines:
  assumes "0 \<le> left" "left \<le> mid" "mid < right" "right < int (length (fst s))"
  shows "\<exists>s'. merge_runs isBenchmark left mid right s = Inr s' \<and>
           vals s' = v_merge (nat left) (nat mid) (nat right) (vals s)"
proof -
  define L where "L = slice (fst s) left (mid + 1)"
  define R where "R = slice (fst s) (mid + 1) (right + 1)"
  define n1 where "n1 = mid - left + 1"
  define n2 where "n2 = right - mid"
  from assms have L: "L = take (nat (mid + 1 - left)) (drop (nat left) (fst s))"
    and R: "R = take (nat (right - mid)) (drop (nat (mid + 1)) (fst s))"
    by (simp_all add: L_def R_def slice_in_array)
  from assms have lens: "n1 = int (length L)" "n2 = int (length R)"
    by (auto simp: L R n1_def n2_def)
  from assms have n: "nat (mid + 1 - left) = nat mid + 1 - nat left" "nat (right - mid) = nat right - nat mid"
    "nat (mid + 1) = nat mid + 1" by auto
  have vL: "map value L = take (nat mid + 1 - nat left) (drop (nat left) (map value (fst s)))"
    and vR: "map value R = take (nat right - nat mid) (drop (nat mid + 1) (map value (fst s)))"
    by (simp_all add: L R n take_map drop_map)
  from assms lens have "0 \<le> fst (0 :: int, 0 :: int, left, s)" "0 \<le> fst (snd (0 :: int, 0 :: int, left, s))"
    "0 \<le> fst (snd (snd (0 :: int, 0 :: int, left, s)))"
    "fst (snd (snd (0 :: int, 0 :: int, left, s))) + (n1 - fst (0 :: int, 0 :: int, left, s))
        + (n2 - fst (snd (0 :: int, 0 :: int, left, s)))
       \<le> int (length (fst (snd (snd (snd (0 :: int, 0 :: int, left, s))))))"
    by (simp_all add: n1_def n2_def)
  from merge_loop_refines[OF lens this, of isBenchmark] obtain c where
    c: "merge_loop isBenchmark L R n1 n2 (0, 0, left, s) = Inr c" and
    vc: "mvals c = v_merge_loop (map value L) (map value R) 0 0 (nat left) (vals s)" and
    pos: "0 \<le> fst c" "0 \<le> fst (snd c)" "0 \<le> fst (snd (snd c))"
    by auto
  obtain i j k s1 where cc: "c = (i, j, k, s1)" by (cases c) auto
  from merge_loop_counters[OF c] assms cc have cnt: "i \<le> n1" "j \<le> n2"
    "k + (n1 - i) + (n2 - j) = left + n1 + n2"
    by (simp_all add: n1_def n2_def)
  from vc cc have vc': "v_merge_loop (map value L) (map value R) 0 0 (nat left) (vals s) = (nat i, nat j, nat k, vals s1)"
    by (simp add: mvals_def)
  from arg_cong[OF vc', of "\<lambda>c. length (fst (snd (snd (snd c))))"] have len1: "length (fst s1) = length (fst s)"
    by simp
  from pos cc cnt assms len1 have "0 \<le> i" "0 \<le> k" "k + (n1 - i) \<le> int (length (fst s1))"
    by (auto simp: n1_def n2_def)
  from drain_refines[OF lens(1) this, of isBenchmark] obtain d where
    d: "drain isBenchmark L n1 i k s1 = Inr d" and
    vd: "(nat (fst d), vals (snd d)) = v_drain (map value L) (nat i) (nat k) (vals s1)"
    by blast
  from arg_cong[OF vd, of "\<lambda>c. length (fst (snd c))"] have len2: "length (fst (snd d)) = length (fst s1)"
    by simp
  from drain_counter[OF d cnt(1)] have kd: "fst d = k + (n1 - i)" .
  from pos cc cnt assms len1 len2 kd have "0 \<le> j" "0 \<le> fst d" "fst d + (n2 - j) \<le> int (length (fst (snd d)))"
    by (auto simp: n1_def n2_def)
  from drain_refines[OF lens(2) this, of isBenchmark] obtain d' where
    d': "drain isBenchmark R n2 j (fst d) (snd d) = Inr d'" and
    vd': "(nat (fst d'), vals (snd d')) = v_drain (map value R) (nat j) (nat (fst d)) (vals (snd d))"
    by blast
  from c cc d d' have "merge_runs isBenchmark left mid right s = Inr (snd d')"
    by (simp add: merge_runs_def Let_def L_def R_def n1_def n2_def)
  moreover have "v_merge (nat left) (nat mid) (nat right) (vals s) = vals (snd d')"
  proof -
    have "v_merge (nat left) (nat mid) (nat right) (vals s)
        = v_finish (map value L) (map value R)
            (v_merge_loop (map value L) (map value R) 0 0 (nat left) (vals s))"
      unfolding v_merge_def Let_def vL vR by simp
    also have "\<dots> = snd (v_drain (map value R) (nat j)
                          (fst (v_drain (map value L) (nat i) (nat k) (vals s1)))
                          (snd (v_drain (map value L) (nat i) (nat k) (vals s1))))"
      unfolding vc' by (simp add: v_finish_def Let_def)
    also have "\<dots> = snd (v_drain (map value R) (nat j) (nat (fst d)) (vals (snd d)))"
      unfolding vd[symmetric] by simp
    also have "\<dots> = vals (snd d')"
      unfolding vd'[symmetric] by simp
    finally show ?thesis .
  qed
  ultimately show ?thesis by simp
qed

lemma mergeSortHelper_refines:
  "0 \<le> left \<Longrightarrow> right < int (length (fst s)) \<Longrightarrow>
     \<exists>s'. mergeSortHelper isBenchmark left right s = Inr s' \<and>
          vals s' = v_msort (nat left) (nat right) (vals s)"
proof (induction isBenchmark left right s rule: mergeSortHelper.induct)
  case (1 isBenchmark left right s)
  show ?case
  proof (cases "left < right")
    case True
    define mid where "mid = (left + right) div 2"
    from True "1.prems" have m: "left \<le> mid" "mid < right" "0 \<le> mid" by (auto simp: mid_def)
    from m "1.prems" have "mid < int (length (fst s))" by simp
    from "1.IH"(1)[OF True mid_def "1.prems"(1) this] obtain s1 where
      s1: "mergeSortHelper isBenchmark left mid s = Inr s1" and
      v1: "vals s1 = v_msort (nat left) (nat mid) (vals s)" by blast
    from vals_eq_length[OF v1] have len1: "length (fst s1) = length (fst s)" by simp
    from m "1.prems" len1 have "0 \<le> mid + 1" "right < int (length (fst s1))" by simp_all
    from "1.IH"(2)[OF True mid_def s1 this] obtain s2 where
      s2: "mergeSortHelper isBenchmark (mid + 1) right s1 = Inr s2" and
      v2: "vals s2 = v_msort (nat (mid + 1)) (nat right) (vals s1)" by blast
    from vals_eq_length[OF v2] len1 have len2: "length (fst s2) = length (fst s)" by simp
    from m "1.prems" len2 have "right < int (length (fst s2))" by simp
    from merge_runs_refines[OF "1.prems"(1) m(1,2) this, of isBenchmark] obtain s' where
      s': "merge_runs isBenchmark left mid right s2 = Inr s'" and
      v': "vals s' = v_merge (nat left) (nat mid) (nat right) (vals s2)" by blast
    from True s1 s2 s' have "mergeSortHelper isBenchmark left right s = Inr s'"
      by (subst mergeSortHelper.simps) (simp add: Let_def mid_def)
    moreover from True "1.prems" m have n: "nat left < nat right" "nat (mid + 1) = nat mid + 1"
      "(nat left + nat right) div 2 = nat mid"
      by (auto simp: mid_def nat_div_distrib nat_add_distrib)
    have "v_msort (nat left) (nat right) (vals s)
        = v_merge (nat left) (nat mid) (nat right) (v_msort (nat mid + 1) (nat right) (v_msort (nat left) (nat mid) (vals s)))"
      using n by (subst v_msort.simps) (simp add: Let_def)
    ultimately show ?thesis using v' v2 v1 n by simp
  next
    case False
    with "1.prems" have "\<not> nat left < nat right" by auto
    with False show ?thesis by (subst mergeSortHelper.simps, subst v_msort.simps) simp
  qed
qed

lemma mergeSort_refines:
  "\<exists>s'. mergeSort elapsed arr currentStats isBenchmark = Inr s' \<and>
        vals s' = finished elapsed (v_mergeSort (vals (arr, currentStats)))"
proof -
  obtain s1 where s1: "mergeSortHelper isBenchmark 0 (int (length arr) - 1) (arr, currentStats) = Inr s1"
    and v1: "vals s1 = v_msort 0 (nat (int (length arr) - 1)) (vals (arr, currentStats))"
    using mergeSortHelper_refines[of 0 "int (length arr) - 1" "(arr, currentStats)" isBenchmark] by auto
  have n: "nat (int (length arr) - 1) = length arr - 1" by auto
  with s1 v1[symmetric] show ?thesis
    by (simp add: mergeSort_def Let_def v_mergeSort_def finished_def in_array_all)
qed

subsection \<open>Merge sort sorts\<close>

text \<open>The merge of two runs as a list; on a tie the element of the left run comes first.\<close>

fun merged :: "real list \<Rightarrow> real list \<Rightarrow> real list" where
  "merged (a # as) (b # bs) = (if a \<le> b then a # merged as (b # bs) else b # merged (a # as) bs)"
| "merged as [] = as"
| "merged [] bs = bs"

lemma merged_Nil [simp]: "merged [] bs = bs"
  by (cases bs) simp_all

lemma mset_merged [simp]: "mset (merged as bs) = mset as + mset bs"
  by (induction as bs rule: merged.induct) simp_all

lemma set_merged [simp]: "set (merged as bs) = set as \<union> set bs"
  by (induction as bs rule: merged.induct) auto

lemma length_merged [simp]: "length (merged as bs) = length as + length bs"
  by (induction as bs rule: merged.induct) simp_all

lemma sorted_merged: "sorted as \<Longrightarrow> sorted bs \<Longrightarrow> sorted (merged as bs)"
  by (induction as bs rule: merged.induct) auto

lemma drop_update_after: "k < n \<Longrightarrow> drop n (xs[k := v]) = drop n xs"
  by simp

lemma v_drain_list:
  "x + m = length X \<Longrightarrow> k + m \<le> length (fst s) \<Longrightarrow>
     fst (v_drain X x k s) = k + m \<and>
     fst (snd (v_drain X x k s)) = take k (fst s) @ drop x X @ drop (k + m) (fst s)"
proof (induction m arbitrary: x k s)
  case 0
  then have "\<not> x < length X" "drop x X = []" by simp_all
  then show ?case by (subst (1 2) v_drain.simps) simp
next
  case (Suc m)
  let ?s1 = "((fst s)[k := X ! x], count_swap (snd s))"
  from Suc.prems have x: "x < length X" and k: "k < length (fst s)" by simp_all
  from Suc.prems have "x + 1 + m = length X" "k + 1 + m \<le> length (fst ?s1)" by simp_all
  from Suc.IH[OF this] have
    a: "fst (v_drain X (x + 1) (k + 1) ?s1) = k + 1 + m" and
    b: "fst (snd (v_drain X (x + 1) (k + 1) ?s1))
        = take (k + 1) (fst ?s1) @ drop (x + 1) X @ drop (k + 1 + m) (fst ?s1)"
    by simp_all
  have t: "take (k + 1) (fst ?s1) = take k (fst s) @ [X ! x]"
    using k by (simp add: take_Suc_conv_app_nth)
  have d: "drop (k + 1 + m) (fst ?s1) = drop (k + 1 + m) (fst s)"
    by (simp add: drop_update_after)
  have c: "drop x X = X ! x # drop (x + 1) X"
    using x by (simp add: Cons_nth_drop_Suc)
  have "v_drain X x k s = v_drain X (x + 1) (k + 1) ?s1"
    using x by (subst v_drain.simps) simp
  with a b t d c show ?case by simp
qed

lemma v_drain_stop: "length X \<le> x \<Longrightarrow> v_drain X x k s = (k, s)"
  by (subst v_drain.simps) simp

lemma v_finish_merge_loop:
  "i + a = length L \<Longrightarrow> j + b = length R \<Longrightarrow> k + a + b \<le> length (fst s) \<Longrightarrow>
     fst (v_finish L R (v_merge_loop L R i j k s))
       = take k (fst s) @ merged (drop i L) (drop j R) @ drop (k + a + b) (fst s)"
proof (induction "a + b" arbitrary: a b i j k s)
  case 0
  then have i: "i = length L" and j: "j = length R" and ab: "a = 0" "b = 0" by simp_all
  have stop: "v_merge_loop L R (length L) (length R) k s = (length L, length R, k, s)"
    by (subst v_merge_loop.simps) simp
  from i j ab show ?case by (simp add: stop v_finish_def Let_def v_drain_stop)
next
  case (Suc n)
  show ?case
  proof (cases "i < length L \<and> j < length R")
    case True
    then have dl: "drop i L = L ! i # drop (i + 1) L" and dr: "drop j R = R ! j # drop (j + 1) R"
      by (simp_all add: Cons_nth_drop_Suc)
    from True Suc.prems obtain a' b' where a': "a = Suc a'" and b': "b = Suc b'"
      by (cases a; cases b) auto
    from Suc.prems a' have k: "k < length (fst s)" by simp
    show ?thesis
    proof (cases "L ! i \<le> R ! j")
      case le: True
      let ?s1 = "((fst s)[k := L ! i], count_swap (count_comparison (snd s)))"
      from Suc.hyps(2) a' have "n = a' + b" by simp
      moreover from Suc.prems a' have "i + 1 + a' = length L" "j + b = length R"
        "k + 1 + a' + b \<le> length (fst ?s1)" by simp_all
      ultimately have "fst (v_finish L R (v_merge_loop L R (i + 1) j (k + 1) ?s1))
          = take (k + 1) (fst ?s1) @ merged (drop (i + 1) L) (drop j R) @ drop (k + 1 + a' + b) (fst ?s1)"
        by (rule Suc.hyps(1))
      moreover have "take (k + 1) (fst ?s1) = take k (fst s) @ [L ! i]"
        using k by (simp add: take_Suc_conv_app_nth)
      moreover have "drop (k + 1 + a' + b) (fst ?s1) = drop (k + a + b) (fst s)"
        using a' by (simp add: drop_update_after)
      moreover have "merged (drop i L) (drop j R) = L ! i # merged (drop (i + 1) L) (drop j R)"
        using le by (subst dl, subst dr) (simp add: dr)
      moreover have "v_merge_loop L R i j k s = v_merge_loop L R (i + 1) j (k + 1) ?s1"
        using True le by (subst v_merge_loop.simps) simp
      ultimately show ?thesis by simp
    next
      case gt: False
      let ?s1 = "((fst s)[k := R ! j], count_swap (count_comparison (snd s)))"
      from Suc.hyps(2) b' have "n = a + b'" by simp
      moreover from Suc.prems b' have "i + a = length L" "j + 1 + b' = length R"
        "k + 1 + a + b' \<le> length (fst ?s1)" by simp_all
      ultimately have "fst (v_finish L R (v_merge_loop L R i (j + 1) (k + 1) ?s1))
          = take (k + 1) (fst ?s1) @ merged (drop i L) (drop (j + 1) R) @ drop (k + 1 + a + b') (fst ?s1)"
        by (rule Suc.hyps(1))
      moreover have "take (k + 1) (fst ?s1) = take k (fst s) @ [R ! j]"
        using k by (simp add: take_Suc_conv_app_nth)
      moreover have "drop (k + 1 + a + b') (fst ?s1) = drop (k + a + b) (fst s)"
        using b' by (simp add: drop_update_after)
      moreover have "merged (drop i L) (drop j R) = R ! j # merged (drop i L) (drop (j + 1) R)"
        using gt by (subst dl, subst dr) (simp add: dl)
      moreover have "v_merge_loop L R i j k s = v_merge_loop L R i (j + 1) (k + 1) ?s1"
        using True gt by (subst v_merge_loop.simps) simp
      ultimately show ?thesis by simp
    qed
  next
    case False
    have stop: "v_merge_loop L R i j k s = (i, j, k, s)"
      by (subst v_merge_loop.simps, subst if_not_P[OF False]) simp
    show ?thesis
    proof (cases "i < length L")
      case True
      with False Suc.prems have j: "j = length R" "b = 0" by simp_all
      from Suc.prems j have "i + a = length L" "k + a \<le> length (fst s)" by simp_all
      from v_drain_list[OF this] have
        "fst (snd (v_drain L i k s)) = take k (fst s) @ drop i L @ drop (k + a) (fst s)" by simp
      with j show ?thesis unfolding stop by (simp add: v_finish_def Let_def v_drain_stop)
    next
      case F: False
      with Suc.prems have i: "i = length L" "a = 0" by simp_all
      from Suc.prems i have "j + b = length R" "k + b \<le> length (fst s)" by simp_all
      from v_drain_list[OF this] have
        "fst (snd (v_drain R j k s)) = take k (fst s) @ drop j R @ drop (k + b) (fst s)" by simp
      with i show ?thesis unfolding stop by (simp add: v_finish_def Let_def v_drain_stop)
    qed
  qed
qed

lemma v_merge_list:
  assumes "left \<le> mid" "mid < right" "right < length (fst s)"
  shows "fst (v_merge left mid right s)
     = take left (fst s)
       @ merged (take (mid + 1 - left) (drop left (fst s))) (take (right - mid) (drop (mid + 1) (fst s)))
       @ drop (right + 1) (fst s)"
proof -
  let ?L = "take (mid + 1 - left) (drop left (fst s))"
  let ?R = "take (right - mid) (drop (mid + 1) (fst s))"
  from assms have l: "0 + (mid + 1 - left) = length ?L" "0 + (right - mid) = length ?R"
    "left + (mid + 1 - left) + (right - mid) \<le> length (fst s)" by auto
  from assms have e: "left + (mid + 1 - left) + (right - mid) = right + 1" by auto
  from v_finish_merge_loop[OF l] show ?thesis
    unfolding e by (simp add: v_merge_def Let_def)
qed

lemma sorted_in_take_drop:
  assumes "l \<le> u" "u \<le> length xs"
  shows "sorted_in l u xs \<longleftrightarrow> sorted (take (u - l) (drop l xs))"
proof
  assume s: "sorted_in l u xs"
  show "sorted (take (u - l) (drop l xs))"
    unfolding sorted_iff_nth_mono
  proof (intro allI impI)
    fix i j assume "i \<le> j" "j < length (take (u - l) (drop l xs))"
    with assms s show "take (u - l) (drop l xs) ! i \<le> take (u - l) (drop l xs) ! j"
      by (simp add: sorted_in_def)
  qed
next
  assume s: "sorted (take (u - l) (drop l xs))"
  show "sorted_in l u xs"
    unfolding sorted_in_def
  proof (intro allI impI)
    fix a b assume ab: "l \<le> a \<and> a \<le> b \<and> b < u"
    with assms have i: "a - l \<le> b - l" "b - l < length (take (u - l) (drop l xs))" by auto
    from ab have e: "a - l < u - l" "b - l < u - l" "l + (a - l) = a" "l + (b - l) = b" by auto
    from assms have "l \<le> length xs" by simp
    with sorted_nth_mono[OF s i] show "xs ! a \<le> xs ! b" by (simp add: e)
  qed
qed

lemma replace_mid:
  assumes lu: "l \<le> u" "u \<le> length zs"
    and M: "mset M = mset (take (u - l) (drop l zs))" "sorted M"
    and ys: "ys = take l zs @ M @ drop u zs"
  shows "perm_in l u zs ys \<and> sorted_in l u ys"
proof -
  from M(1) have "size (mset M) = size (mset (take (u - l) (drop l zs)))" by simp
  with lu have lenM: "length M = u - l" by simp
  with lu ys have len: "length ys = length zs" by simp
  have split: "zs = take l zs @ take (u - l) (drop l zs) @ drop u zs"
    using lu(1) by (metis append_take_drop_id drop_drop le_add_diff_inverse2)
  have "mset zs = mset (take l zs) + mset (take (u - l) (drop l zs)) + mset (drop u zs)"
    by (subst split) simp
  with M(1) ys have ms: "mset ys = mset zs" by simp
  have out: "\<forall>t<length zs. t < l \<or> u \<le> t \<longrightarrow> ys ! t = zs ! t"
  proof (intro allI impI)
    fix t assume t: "t < length zs" "t < l \<or> u \<le> t"
    show "ys ! t = zs ! t"
    proof (cases "t < l")
      case True
      with lu ys show ?thesis by (simp add: nth_append)
    next
      case False
      with t have "u \<le> t" by simp
      with lu lenM t have "\<not> t < l" "\<not> t - l < length M" "t - l - length M = t - u" by auto
      with lu ys t show ?thesis by (simp add: nth_append)
    qed
  qed
  from lu lenM ys have "take (u - l) (drop l ys) = M" by simp
  with M(2) sorted_in_take_drop[of l u ys] lu len have "sorted_in l u ys" by simp
  with len ms out show ?thesis by (simp add: perm_in_def)
qed

lemma v_msort_sorts:
  "right < length (fst s) \<Longrightarrow>
     perm_in left (Suc right) (fst s) (fst (v_msort left right s)) \<and>
     sorted_in left (Suc right) (fst (v_msort left right s))"
proof (induction left right s rule: v_msort.induct)
  case (1 left right s)
  show ?case
  proof (cases "left < right")
    case False
    then show ?thesis by (subst (1 2) v_msort.simps) (simp add: sorted_in_small)
  next
    case True
    define mid where "mid = (left + right) div 2"
    define s1 where "s1 = v_msort left mid s"
    define s2 where "s2 = v_msort (mid + 1) right s1"
    from True have m: "left \<le> mid" "mid < right" by (simp_all add: mid_def)
    have res: "v_msort left right s = v_merge left mid right s2"
      using True by (subst v_msort.simps) (simp add: Let_def mid_def s1_def s2_def)
    from m "1.prems" have "mid < length (fst s)" by simp
    from "1.IH"(1)[OF True mid_def this] have
      p1: "perm_in left (Suc mid) (fst s) (fst s1)" and so1: "sorted_in left (Suc mid) (fst s1)"
      by (simp_all add: s1_def)
    from "1.prems" have "right < length (fst (v_msort left mid s))" by simp
    from "1.IH"(2)[OF True mid_def this] have
      p2: "perm_in (mid + 1) (Suc right) (fst s1) (fst s2)" and so2: "sorted_in (mid + 1) (Suc right) (fst s2)"
      by (simp_all add: s1_def s2_def)
    have len2: "length (fst s2) = length (fst s)" by (simp add: s2_def s1_def)
    have len1: "length (fst s1) = length (fst s)" by (simp add: s1_def)
    \<comment> \<open>the left run of \<open>s2\<close> is that of \<open>s1\<close>\<close>
    have so1': "sorted_in left (Suc mid) (fst s2)"
      unfolding sorted_in_def
    proof (intro allI impI)
      fix a b assume ab: "left \<le> a \<and> a \<le> b \<and> b < Suc mid"
      with perm_in_outside[OF p2, of a] perm_in_outside[OF p2, of b] m "1.prems" len1
      have "fst s2 ! a = fst s1 ! a" "fst s2 ! b = fst s1 ! b" by simp_all
      with so1 ab show "fst s2 ! a \<le> fst s2 ! b" by (simp add: sorted_in_def)
    qed
    let ?L = "take (mid + 1 - left) (drop left (fst s2))"
    let ?R = "take (right - mid) (drop (mid + 1) (fst s2))"
    from m "1.prems" len2 so1' have sL: "sorted ?L"
      using sorted_in_take_drop[of left "Suc mid" "fst s2"] by simp
    from m "1.prems" len2 so2 have sR: "sorted ?R"
      using sorted_in_take_drop[of "mid + 1" "Suc right" "fst s2"] by simp
    have LR: "take (Suc right - left) (drop left (fst s2)) = ?L @ ?R"
    proof -
      from m have "Suc right - left = (mid + 1 - left) + (right - mid)" by simp
      then have "take (Suc right - left) (drop left (fst s2))
          = ?L @ take (right - mid) (drop (mid + 1 - left) (drop left (fst s2)))"
        by (simp only: take_add)
      with m show ?thesis by simp
    qed
    from m "1.prems" len2 have ys: "fst (v_merge left mid right s2)
        = take left (fst s2) @ merged ?L ?R @ drop (Suc right) (fst s2)"
      using v_merge_list[of left mid right s2] by simp
    have "mset (merged ?L ?R) = mset (take (Suc right - left) (drop left (fst s2)))"
      by (simp add: LR)
    moreover from m "1.prems" len2 have "left \<le> Suc right" "Suc right \<le> length (fst s2)" by simp_all
    ultimately have fin: "perm_in left (Suc right) (fst s2) (fst (v_merge left mid right s2))
        \<and> sorted_in left (Suc right) (fst (v_merge left mid right s2))"
      using replace_mid[OF _ _ _ sorted_merged[OF sL sR] ys] by simp
    from p1 m have "perm_in left (Suc right) (fst s) (fst s1)" by (auto intro: perm_in_mono)
    moreover from p2 m have "perm_in left (Suc right) (fst s1) (fst s2)" by (auto intro: perm_in_mono)
    ultimately show ?thesis using fin by (auto simp: res intro: perm_in_trans)
  qed
qed

lemma v_mergeSort_sorts:
  "sorted (fst (v_mergeSort s)) \<and> mset (fst (v_mergeSort s)) = mset (fst s)"
proof (cases "fst s = []")
  case True
  then show ?thesis unfolding v_mergeSort_def by (subst (1 2) v_msort.simps) simp
next
  case False
  then have "length (fst s) - 1 < length (fst s)" by simp
  from v_msort_sorts[OF this, of 0] False have
    a: "perm_in 0 (length (fst s)) (fst s) (fst (v_mergeSort s))" and
    b: "sorted_in 0 (length (fst s)) (fst (v_mergeSort s))"
    by (simp_all add: v_mergeSort_def)
  from a have "length (fst (v_mergeSort s)) = length (fst s)" by (rule perm_in_length)
  with b have "sorted (fst (v_mergeSort s))" by (simp flip: sorted_in_all)
  with perm_in_mset[OF a] show ?thesis by simp
qed

subsection \<open>Heap sort on the values\<close>

definition v_largest :: "nat \<Rightarrow> nat \<Rightarrow> real list \<Rightarrow> nat" where
  "v_largest n i xs =
     (let l = 2 * i + 1; r = 2 * i + 2;
          m = (if l < n \<and> xs ! l > xs ! i then l else i)
      in if r < n \<and> xs ! r > xs ! m then r else m)"

lemma v_largest_cases:
  "v_largest n i xs = i \<or>
   (v_largest n i xs = 2 * i + 1 \<or> v_largest n i xs = 2 * i + 2) \<and> v_largest n i xs < n"
  by (auto simp: v_largest_def Let_def)

function v_heapify :: "nat \<Rightarrow> nat \<Rightarrow> vstate \<Rightarrow> vstate" where
  "v_heapify n i s =
     (let m = v_largest n i (fst s); st = count_comparison (count_comparison (snd s)) in
      if m \<noteq> i then v_heapify n m (swap_list i m (fst s), count_swap st) else (fst s, st))"
  by pat_completeness auto
termination
proof (relation "measure (\<lambda>(n, i, s). n - i)", goal_cases)
  case 1
  show ?case by simp
next
  case (2 n i s m st)
  with v_largest_cases[of n i "fst s"] show ?case by auto
qed

declare v_heapify.simps [simp del]

fun v_build :: "nat \<Rightarrow> nat \<Rightarrow> vstate \<Rightarrow> vstate" where
  "v_build n 0 s = s"
| "v_build n (Suc k) s = v_build n k (v_heapify n k s)"

fun v_extract :: "nat \<Rightarrow> vstate \<Rightarrow> vstate" where
  "v_extract 0 s = s"
| "v_extract (Suc m) s =
     v_extract m (v_heapify (Suc m) 0 (swap_list 0 (Suc m) (fst s), count_swap (snd s)))"

definition v_heapSort :: "vstate \<Rightarrow> vstate" where
  "v_heapSort s = v_extract (length (fst s) - 1) (v_build (length (fst s)) (length (fst s) div 2) s)"

lemma length_v_heapify [simp]: "length (fst (v_heapify n i s)) = length (fst s)"
proof (induction n i s rule: v_heapify.induct)
  case (1 n i s)
  then show ?case by (subst v_heapify.simps) (simp add: Let_def)
qed

lemma length_v_build [simp]: "length (fst (v_build n k s)) = length (fst s)"
  by (induction k arbitrary: s) simp_all

lemma length_v_extract [simp]: "length (fst (v_extract m s)) = length (fst s)"
  by (induction m arbitrary: s) simp_all

lemma in_array_heapify_flags:
  "0 \<le> i \<Longrightarrow> i < int (length a) \<Longrightarrow> n \<le> int (length a) \<Longrightarrow> in_array a (heapify_flags n i v)"
  by (simp add: heapify_flags_def Let_def)

lemma heapify_select_refines:
  assumes "0 \<le> i" "i < int (length (fst s))" "n \<le> int (length (fst s))"
  shows "heapify_select isBenchmark n i s
     = Inr (int (v_largest (nat n) (nat i) (map value (fst s))),
            shown isBenchmark (heapify_flags n i True) (fst s),
            count_comparison (count_comparison (snd s)))"
proof -
  from assms have n: "nat (2 * i + 1) = 2 * nat i + 1" "nat (2 * i + 2) = 2 * nat i + 2"
    "nat i < length (fst s)" by auto
  from assms have c: "2 * i + 1 < n \<longleftrightarrow> 2 * nat i + 1 < nat n" "2 * i + 2 < n \<longleftrightarrow> 2 * nat i + 2 < nat n"
    by auto
  from assms have r: "2 * i + 1 < n \<Longrightarrow> 2 * nat i + 1 < length (fst s)"
    "2 * i + 2 < n \<Longrightarrow> 2 * nat i + 2 < length (fst s)" by auto
  from assms show ?thesis
    by (auto simp: heapify_select_def v_largest_def Let_def in_array_heapify_flags n c r)
qed

lemma heapify_refines:
  "0 \<le> i \<Longrightarrow> i < int (length (fst s)) \<Longrightarrow> n \<le> int (length (fst s)) \<Longrightarrow>
     \<exists>s'. heapify isBenchmark n i s = Inr s' \<and> vals s' = v_heapify (nat n) (nat i) (vals s)"
proof (induction isBenchmark n i s rule: heapify.induct)
  case (1 isBenchmark n i s)
  define m where "m = v_largest (nat n) (nat i) (map value (fst s))"
  define a1 where "a1 = shown isBenchmark (heapify_flags n i True) (fst s)"
  define st2 where "st2 = count_comparison (count_comparison (snd s))"
  from "1.prems" have sel: "heapify_select isBenchmark n i s = Inr (int m, a1, st2)"
    by (simp add: heapify_select_refines m_def a1_def st2_def)
  have len1: "length a1 = length (fst s)" by (simp add: a1_def)
  show ?case
  proof (cases "m = nat i")
    case True
    with "1.prems" have mi: "int m = i" by simp
    from "1.prems" len1 have fl: "in_array a1 (heapify_flags n i False)"
      by (simp add: in_array_heapify_flags)
    from sel mi fl have "heapify isBenchmark n i s
        = Inr (shown isBenchmark (heapify_flags n i False) a1, st2)"
      by (subst heapify.simps) (simp add: Let_def)
    moreover have "v_heapify (nat n) (nat i) (vals s) = (map value (fst s), st2)"
      using True by (subst v_heapify.simps) (simp add: Let_def m_def st2_def)
    ultimately show ?thesis by (simp add: a1_def)
  next
    case False
    with "1.prems" have mi: "int m \<noteq> i" by auto
    from False v_largest_cases[of "nat n" "nat i" "map value (fst s)"] "1.prems"
    have mb: "nat i < m" "m < nat n" "m < length (fst s)" by (auto simp: m_def)
    define a2 where "a2 = shown isBenchmark [(i, IsSwapping, True), (int m, IsSwapping, True)] a1"
    define a3 where "a3 = swap_list (nat i) m a2"
    define a4 where "a4 = shown isBenchmark [(i, IsSwapping, False), (int m, IsSwapping, False)] a3"
    have lens: "length a2 = length (fst s)" "length a3 = length (fst s)" "length a4 = length (fst s)"
      by (simp_all add: a2_def a3_def a4_def len1)
    from "1.prems" mb len1 have i2: "interactive isBenchmark [(i, IsSwapping, True), (int m, IsSwapping, True)] a1 = Inr a2"
      by (simp add: a2_def)
    from "1.prems" mb lens have sw: "swap_elems i (int m) a2 = Inr a3"
      by (simp add: a3_def)
    from "1.prems" mb lens have i4: "interactive isBenchmark [(i, IsSwapping, False), (int m, IsSwapping, False)] a3 = Inr a4"
      by (simp add: a4_def)
    from mb "1.prems" lens have pre: "0 \<le> int m" "int m < int (length (fst (a4, count_swap st2)))"
      "n \<le> int (length (fst (a4, count_swap st2)))" by simp_all
    have e: "int m = fst (int m, a1, st2)" "a1 = fst (snd (int m, a1, st2))"
      "st2 = snd (snd (int m, a1, st2))" by simp_all
    from "1.IH"[OF sel e mi i2 sw refl i4 pre] obtain s4 where
      s4: "heapify isBenchmark n (int m) (a4, count_swap st2) = Inr s4" and
      v4: "vals s4 = v_heapify (nat n) (nat (int m)) (vals (a4, count_swap st2))" by auto
    from vals_eq_length[OF v4] lens have len4: "length (fst s4) = length (fst s)" by simp
    with "1.prems" have fl: "in_array (fst s4) (heapify_flags n i False)"
      by (simp add: in_array_heapify_flags)
    from sel mi i2 sw i4 s4 fl have "heapify isBenchmark n i s
        = Inr (shown isBenchmark (heapify_flags n i False) (fst s4), snd s4)"
      by (subst heapify.simps) (simp add: Let_def)
    moreover have "map value a4 = swap_list (nat i) m (map value (fst s))"
      using mb "1.prems" lens len1
      by (simp add: a4_def a3_def a2_def a1_def map_swap_list)
    then have "v_heapify (nat n) (nat i) (vals s) = v_heapify (nat n) m (vals (a4, count_swap st2))"
      using False by (subst v_heapify.simps) (simp add: Let_def m_def st2_def)
    ultimately show ?thesis using v4 by (simp add: vals_def)
  qed
qed

lemma build_heap_refines:
  "- 1 \<le> i \<Longrightarrow> i < int (length (fst s)) \<Longrightarrow>
     \<exists>s'. build_heap isBenchmark i s = Inr s' \<and> vals s' = v_build (length (fst s)) (nat (i + 1)) (vals s)"
proof (induction isBenchmark i s rule: build_heap.induct)
  case (1 isBenchmark i s)
  show ?case
  proof (cases "i \<ge> 0")
    case True
    with "1.prems" obtain s1 where s1: "heapify isBenchmark (int (length (fst s))) i s = Inr s1"
      and v1: "vals s1 = v_heapify (length (fst s)) (nat i) (vals s)"
      using heapify_refines[of i s "int (length (fst s))" isBenchmark] by auto
    from vals_eq_length[OF v1] have len: "length (fst s1) = length (fst s)" by simp
    with True "1.prems" have "- 1 \<le> i - 1" "i - 1 < int (length (fst s1))" by simp_all
    from "1.IH"[OF True s1 this] obtain s' where
      s': "build_heap isBenchmark (i - 1) s1 = Inr s'" and
      v': "vals s' = v_build (length (fst s1)) (nat (i - 1 + 1)) (vals s1)" by blast
    from True s1 s' have "build_heap isBenchmark i s = Inr s'"
      by (subst build_heap.simps) simp
    moreover from True have "nat (i + 1) = Suc (nat i)" by simp
    ultimately show ?thesis using v' v1 len by simp
  next
    case False
    with "1.prems" have "nat (i + 1) = 0" by simp
    with False show ?thesis by (subst build_heap.simps) simp
  qed
qed

lemma extract_loop_refines:
  "i < int (length (fst s)) \<Longrightarrow>
     \<exists>s'. extract_loop isBenchmark i s = Inr s' \<and> vals s' = v_extract (nat i) (vals s)"
proof (induction isBenchmark i s rule: extract_loop.induct)
  case (1 isBenchmark i s)
  show ?case
  proof (cases "i > 0")
    case True
    define a1 where "a1 = shown isBenchmark [(0, IsSwapping, True), (i, IsSwapping, True)] (fst s)"
    define a2 where "a2 = swap_list 0 (nat i) a1"
    define a3 where "a3 = shown isBenchmark [(i, IsSorted, True), (0, IsSwapping, False), (i, IsSwapping, False)] a2"
    have lens: "length a1 = length (fst s)" "length a2 = length (fst s)" "length a3 = length (fst s)"
      by (simp_all add: a1_def a2_def a3_def)
    from True "1.prems" have ne: "fst s \<noteq> []" by auto
    from True "1.prems" ne have i1: "interactive isBenchmark [(0, IsSwapping, True), (i, IsSwapping, True)] (fst s) = Inr a1"
      by (simp add: a1_def)
    from True "1.prems" lens ne have sw: "swap_elems 0 i a1 = Inr a2"
      by (simp add: a2_def)
    from True "1.prems" lens ne have i3: "interactive isBenchmark
        [(i, IsSorted, True), (0, IsSwapping, False), (i, IsSwapping, False)] a2 = Inr a3"
      by (simp add: a3_def)
    from True "1.prems" lens ne obtain s4 where
      s4: "heapify isBenchmark i 0 (a3, count_swap (snd s)) = Inr s4" and
      v4: "vals s4 = v_heapify (nat i) 0 (vals (a3, count_swap (snd s)))"
      using heapify_refines[of 0 "(a3, count_swap (snd s))" i isBenchmark] by auto
    from vals_eq_length[OF v4] lens have len4: "length (fst s4) = length (fst s)" by simp
    with True "1.prems" have "i - 1 < int (length (fst s4))" by simp
    from "1.IH"[OF True i1 sw refl i3 s4 this] obtain s' where
      s': "extract_loop isBenchmark (i - 1) s4 = Inr s'" and
      v': "vals s' = v_extract (nat (i - 1)) (vals s4)" by blast
    from True i1 sw i3 s4 s' have "extract_loop isBenchmark i s = Inr s'"
      by (subst extract_loop.simps) (simp add: Let_def)
    moreover from True have n: "nat i = Suc (nat (i - 1))" by simp
    have "map value a3 = swap_list 0 (nat i) (map value (fst s))"
      using True "1.prems" lens ne by (simp add: a3_def a2_def a1_def map_swap_list)
    then have "v_extract (nat i) (vals s) = v_extract (nat (i - 1)) (v_heapify (nat i) 0 (vals (a3, count_swap (snd s))))"
      by (subst n, subst v_extract.simps) (simp add: n[symmetric])
    ultimately show ?thesis using v' v4 by simp
  next
    case False
    then have "nat i = 0" by simp
    with False show ?thesis by (subst extract_loop.simps) simp
  qed
qed

lemma heapSort_refines:
  assumes "isBenchmark \<or> arr \<noteq> []"
  shows "\<exists>s'. heapSort elapsed arr currentStats isBenchmark = Inr s' \<and>
           vals s' = finished elapsed (v_heapSort (vals (arr, currentStats)))"
proof -
  have "- 1 \<le> int (length arr) div 2 - 1" "int (length arr) div 2 - 1 < int (length (fst (arr, currentStats)))"
    by simp_all
  from build_heap_refines[OF this, of isBenchmark] obtain s1 where
    s1: "build_heap isBenchmark (int (length arr) div 2 - 1) (arr, currentStats) = Inr s1" and
    v1: "vals s1 = v_build (length arr) (nat (int (length arr) div 2 - 1 + 1)) (vals (arr, currentStats))"
    by auto
  have n: "nat (int (length arr) div 2 - 1 + 1) = length arr div 2"
    by (simp add: nat_div_distrib)
  from vals_eq_length[OF v1] have len1: "length (fst s1) = length arr" by simp
  then have "int (length (fst s1)) - 1 < int (length (fst s1))" by simp
  from extract_loop_refines[OF this, of isBenchmark] obtain s2 where
    s2: "extract_loop isBenchmark (int (length (fst s1)) - 1) s1 = Inr s2" and
    v2: "vals s2 = v_extract (nat (int (length (fst s1)) - 1)) (vals s1)" by blast
  have n2: "nat (int (length (fst s1)) - 1) = length arr - 1" using len1 by simp
  from vals_eq_length[OF v2] len1 have len2: "length (fst s2) = length arr" by simp
  have "interactive isBenchmark [(0, IsSorted, True)] (fst s2) = Inr (shown isBenchmark [(0, IsSorted, True)] (fst s2))"
  proof (cases isBenchmark)
    case True
    then show ?thesis by (simp add: interactive_def)
  next
    case False
    with assms len2 show ?thesis by simp
  qed
  moreover have "v_heapSort (vals (arr, currentStats)) = vals s2"
    unfolding v2 n2 v1 n by (simp add: v_heapSort_def)
  ultimately show ?thesis using s1 s2
    by (simp add: heapSort_def Let_def finished_def)
qed

subsection \<open>Heap sort sorts\<close>

text \<open>
  \<open>heap_above k n xs\<close>: among the first \<open>n\<close> elements, every node from index \<open>k\<close> on
  is at least as large as its children. \<open>heap_except k n i xs\<close>: the same but for the
  node \<open>i\<close>, whose children are instead bounded by the parent of \<open>i\<close>; this is what a
  swap on the way down leaves behind.
\<close>

definition heap_above :: "nat \<Rightarrow> nat \<Rightarrow> real list \<Rightarrow> bool" where
  "heap_above k n xs \<longleftrightarrow>
     (\<forall>p c. k \<le> p \<and> c < n \<and> (c = 2 * p + 1 \<or> c = 2 * p + 2) \<longrightarrow> xs ! c \<le> xs ! p)"

definition heap_except :: "nat \<Rightarrow> nat \<Rightarrow> nat \<Rightarrow> real list \<Rightarrow> bool" where
  "heap_except k n i xs \<longleftrightarrow>
     (\<forall>p c. k \<le> p \<and> p \<noteq> i \<and> c < n \<and> (c = 2 * p + 1 \<or> c = 2 * p + 2) \<longrightarrow> xs ! c \<le> xs ! p) \<and>
     (\<forall>p c. k \<le> p \<and> (i = 2 * p + 1 \<or> i = 2 * p + 2) \<and> c < n \<and> (c = 2 * i + 1 \<or> c = 2 * i + 2)
        \<longrightarrow> xs ! c \<le> xs ! p)"

lemma nth_swap_list:
  "i < length xs \<Longrightarrow> j < length xs \<Longrightarrow>
     swap_list i j xs ! t = (if t = j then xs ! i else if t = i then xs ! j else xs ! t)"
  by (simp add: swap_list_def nth_list_update)

lemma v_largest_stays:
  "v_largest n i xs = i \<Longrightarrow> c < n \<Longrightarrow> c = 2 * i + 1 \<or> c = 2 * i + 2 \<Longrightarrow> xs ! c \<le> xs ! i"
  by (auto simp: v_largest_def Let_def split: if_splits)

lemma v_largest_moves:
  assumes "v_largest n i xs \<noteq> i"
  shows "xs ! i < xs ! v_largest n i xs"
    and "c < n \<Longrightarrow> c = 2 * i + 1 \<or> c = 2 * i + 2 \<Longrightarrow> xs ! c \<le> xs ! v_largest n i xs"
  using assms by (auto simp: v_largest_def Let_def split: if_splits)

lemma heap_except_swap:
  assumes h: "heap_except k n i xs" and ki: "k \<le> i" and n: "n \<le> length xs"
    and m: "m = v_largest n i xs" "m \<noteq> i"
  shows "heap_except k n m (swap_list i m xs)"
proof -
  from m v_largest_cases[of n i xs] have mc: "m = 2 * i + 1 \<or> m = 2 * i + 2" "m < n" by auto
  with n have r: "i < length xs" "m < length xs" by auto
  from m v_largest_moves[of n i xs] have big: "xs ! i < xs ! m"
    and top: "\<And>c. c < n \<Longrightarrow> c = 2 * i + 1 \<or> c = 2 * i + 2 \<Longrightarrow> xs ! c \<le> xs ! m" by auto
  let ?ys = "swap_list i m xs"
  have "?ys ! c \<le> ?ys ! p" if "k \<le> p" "p \<noteq> m" "c < n" "c = 2 * p + 1 \<or> c = 2 * p + 2" for p c
  proof (cases "p = i")
    case True
    show ?thesis
    proof (cases "c = m")
      case c: True
      with True r big m(2) show ?thesis by (simp add: nth_swap_list)
    next
      case False
      with True that have "c \<noteq> i" "xs ! c \<le> xs ! m" using top[of c] by auto
      with True False r m(2) show ?thesis by (simp add: nth_swap_list)
    qed
  next
    case False
    with that mc have cm: "c \<noteq> m" by auto
    show ?thesis
    proof (cases "c = i")
      case True
      with h that mc have "xs ! m \<le> xs ! p" unfolding heap_except_def by blast
      with True False that r m(2) show ?thesis by (simp add: nth_swap_list)
    next
      case ci: False
      from h that False have "xs ! c \<le> xs ! p" unfolding heap_except_def by blast
      with ci cm False that r show ?thesis by (simp add: nth_swap_list)
    qed
  qed
  moreover have "?ys ! c \<le> ?ys ! p"
    if "k \<le> p" "m = 2 * p + 1 \<or> m = 2 * p + 2" "c < n" "c = 2 * m + 1 \<or> c = 2 * m + 2" for p c
  proof -
    from that mc have p: "p = i" by auto
    from that mc have c: "c \<noteq> i" "c \<noteq> m" by auto
    from mc ki have "k \<le> m" by auto
    with h that m(2) have "xs ! c \<le> xs ! m" unfolding heap_except_def by blast
    with p c r m(2) show ?thesis by (simp add: nth_swap_list)
  qed
  ultimately show ?thesis unfolding heap_except_def by blast
qed

lemma v_heapify_heap:
  "heap_except k n i (fst s) \<Longrightarrow> k \<le> i \<Longrightarrow> i < n \<Longrightarrow> n \<le> length (fst s) \<Longrightarrow>
     heap_above k n (fst (v_heapify n i s)) \<and> perm_in i n (fst s) (fst (v_heapify n i s))"
proof (induction n i s rule: v_heapify.induct)
  case (1 n i s)
  define m where "m = v_largest n i (fst s)"
  show ?case
  proof (cases "m = i")
    case True
    then have res: "v_heapify n i s = (fst s, count_comparison (count_comparison (snd s)))"
      by (subst v_heapify.simps) (simp add: Let_def m_def)
    have "heap_above k n (fst s)"
      unfolding heap_above_def
    proof (intro allI impI)
      fix p c assume a: "k \<le> p \<and> c < n \<and> (c = 2 * p + 1 \<or> c = 2 * p + 2)"
      show "fst s ! c \<le> fst s ! p"
      proof (cases "p = i")
        case pi: True
        with a True v_largest_stays[of n i "fst s" c] show ?thesis by (simp add: m_def)
      next
        case False
        with a "1.prems"(1) show ?thesis unfolding heap_except_def by blast
      qed
    qed
    then show ?thesis by (simp add: res)
  next
    case False
    from False v_largest_cases[of n i "fst s"] have mc: "m = 2 * i + 1 \<or> m = 2 * i + 2" "m < n"
      by (auto simp: m_def)
    let ?s1 = "(swap_list i m (fst s), count_swap (count_comparison (count_comparison (snd s))))"
    have res: "v_heapify n i s = v_heapify n m ?s1"
      using False by (subst v_heapify.simps) (simp add: Let_def m_def)
    from heap_except_swap[OF "1.prems"(1,2,4) m_def False]
    have h: "heap_except k n m (fst ?s1)" by simp
    from mc "1.prems" have "k \<le> m" "m < n" "n \<le> length (fst ?s1)" by auto
    from "1.IH"[OF m_def refl False h this]
    have a: "heap_above k n (fst (v_heapify n m ?s1))" and
      p: "perm_in m n (fst ?s1) (fst (v_heapify n m ?s1))"
      by simp_all
    from mc "1.prems" have "perm_in i n (fst s) (swap_list i m (fst s))"
      by (intro perm_in_swap) auto
    moreover from p mc have "perm_in i n (fst ?s1) (fst (v_heapify n m ?s1))"
      by (auto intro: perm_in_mono)
    ultimately have "perm_in i n (fst s) (fst (v_heapify n m ?s1))"
      by (auto intro: perm_in_trans)
    with a show ?thesis by (simp add: res)
  qed
qed

lemma heap_root_max:
  assumes "heap_above 0 n xs"
  shows "j < n \<Longrightarrow> xs ! j \<le> xs ! 0"
proof (induction j rule: less_induct)
  case (less j)
  show ?case
  proof (cases "j = 0")
    case True
    then show ?thesis by simp
  next
    case False
    define p where "p = (j - 1) div 2"
    from False have c: "j = 2 * p + 1 \<or> j = 2 * p + 2" and pj: "p < j" by (auto simp: p_def)
    with assms less.prems have "xs ! j \<le> xs ! p" unfolding heap_above_def by blast
    moreover from less.IH[OF pj] pj less.prems have "xs ! p \<le> xs ! 0" by simp
    ultimately show ?thesis by simp
  qed
qed

lemma v_build_heap:
  "heap_above k n (fst s) \<Longrightarrow> k \<le> n \<Longrightarrow> n \<le> length (fst s) \<Longrightarrow>
     heap_above 0 n (fst (v_build n k s)) \<and> perm_in 0 n (fst s) (fst (v_build n k s))"
proof (induction k arbitrary: s)
  case 0
  then show ?case by simp
next
  case (Suc k)
  from Suc.prems(1) have "heap_except k n k (fst s)"
    unfolding heap_above_def heap_except_def by (auto simp: Suc_le_eq)
  from v_heapify_heap[OF this] Suc.prems have
    a: "heap_above k n (fst (v_heapify n k s))" and p: "perm_in k n (fst s) (fst (v_heapify n k s))"
    by simp_all
  from Suc.prems have "k \<le> n" "n \<le> length (fst (v_heapify n k s))" by simp_all
  from Suc.IH[OF a this] have
    "heap_above 0 n (fst (v_build n k (v_heapify n k s)))"
    "perm_in 0 n (fst (v_heapify n k s)) (fst (v_build n k (v_heapify n k s)))" by simp_all
  moreover from p have "perm_in 0 n (fst s) (fst (v_heapify n k s))" by (auto intro: perm_in_mono)
  ultimately show ?case by (auto intro: perm_in_trans)
qed

lemma tail_sorted_perm:
  assumes t: "tail_sorted m ys" and p: "perm_in 0 m ys zs" and m: "m \<le> length ys"
  shows "tail_sorted m zs"
proof -
  from p have len: "length zs = length ys" by (rule perm_in_length)
  have same: "\<And>t. m \<le> t \<Longrightarrow> t < length ys \<Longrightarrow> zs ! t = ys ! t"
    using perm_in_outside[OF p] by simp
  have "sorted_in m (length zs) zs"
    using t same len by (auto simp: tail_sorted_def sorted_in_def)
  moreover have "\<forall>s t. s < m \<and> m \<le> t \<and> t < length zs \<longrightarrow> zs ! s \<le> zs ! t"
  proof (intro allI impI)
    fix s u assume a: "s < m \<and> m \<le> u \<and> u < length zs"
    with t len have "\<forall>r. 0 \<le> r \<and> r < m \<longrightarrow> ys ! r \<le> ys ! u" by (simp add: tail_sorted_def)
    from perm_in_all[where P = "\<lambda>v. v \<le> ys ! u", OF p m this, of s] a have "zs ! s \<le> ys ! u" by simp
    with same[of u] a len show "zs ! s \<le> zs ! u" by simp
  qed
  ultimately show ?thesis by (simp add: tail_sorted_def)
qed

lemma v_extract_sorts:
  "m < length (fst s) \<Longrightarrow> heap_above 0 (Suc m) (fst s) \<Longrightarrow> tail_sorted (Suc m) (fst s) \<Longrightarrow>
     sorted (fst (v_extract m s)) \<and> mset (fst (v_extract m s)) = mset (fst s)"
proof (induction m arbitrary: s)
  case 0
  then have "sorted_in 0 (length (fst s)) (fst s)"
    unfolding tail_sorted_def sorted_in_def
    by (metis Suc_leI le_neq_implies_less less_Suc0 order_refl zero_le)
  then show ?case by (simp add: sorted_in_all)
next
  case (Suc m)
  let ?xs = "fst s"
  let ?ys = "swap_list 0 (Suc m) ?xs"
  let ?s1 = "(?ys, count_swap (snd s))"
  let ?s2 = "v_heapify (Suc m) 0 ?s1"
  from Suc.prems have r: "0 < length ?xs" "Suc m < length ?xs" by auto
  \<comment> \<open>the largest element goes behind the heap\<close>
  have py: "perm_in 0 (Suc (Suc m)) ?xs ?ys"
    using r by (intro perm_in_swap) auto
  have top: "\<forall>t<Suc m. ?ys ! t \<le> ?ys ! Suc m"
  proof (intro allI impI)
    fix t assume t: "t < Suc m"
    from heap_root_max[OF Suc.prems(2), of t] heap_root_max[OF Suc.prems(2), of "Suc m"] t
    have "?xs ! t \<le> ?xs ! 0" "?xs ! Suc m \<le> ?xs ! 0" by simp_all
    with t r show "?ys ! t \<le> ?ys ! Suc m" by (simp add: nth_swap_list)
  qed
  from Suc.prems have "Suc (Suc m) \<le> length ?xs" by simp
  from tail_sorted_pass[OF Suc.prems(3) this py top] have ty: "tail_sorted (Suc m) ?ys" .
  \<comment> \<open>the heap is restored among the first \<open>Suc m\<close> elements\<close>
  have "heap_except 0 (Suc m) 0 ?ys"
    unfolding heap_except_def
  proof (intro conjI allI impI)
    fix p c assume a: "0 \<le> p \<and> p \<noteq> 0 \<and> c < Suc m \<and> (c = 2 * p + 1 \<or> c = 2 * p + 2)"
    with Suc.prems(2) have "?xs ! c \<le> ?xs ! p" unfolding heap_above_def by auto
    moreover from a have "c \<noteq> 0" "c \<noteq> Suc m" "p \<noteq> Suc m" by auto
    ultimately show "?ys ! c \<le> ?ys ! p" using a r by (simp add: nth_swap_list)
  next
    fix p c :: nat
    assume "0 \<le> p \<and> (0 = 2 * p + 1 \<or> 0 = 2 * p + 2) \<and> c < Suc m \<and> (c = 2 * 0 + 1 \<or> c = 2 * 0 + 2)"
    then show "?ys ! c \<le> ?ys ! p" by simp
  qed
  from v_heapify_heap[of 0 "Suc m" 0 ?s1, OF _ _ _ _] this r have
    h2: "heap_above 0 (Suc m) (fst ?s2)" and p2: "perm_in 0 (Suc m) ?ys (fst ?s2)"
    by simp_all
  from r have "Suc m \<le> length ?ys" by simp
  from tail_sorted_perm[OF ty p2 this] have t2: "tail_sorted (Suc m) (fst ?s2)" .
  from r have "m < length (fst ?s2)" by simp
  from Suc.IH[OF this] h2 t2 have
    "sorted (fst (v_extract m ?s2))" "mset (fst (v_extract m ?s2)) = mset (fst ?s2)"
    unfolding heap_above_def by auto
  with perm_in_mset[OF p2] perm_in_mset[OF py] show ?case by simp
qed

lemma v_heapSort_sorts:
  "sorted (fst (v_heapSort s)) \<and> mset (fst (v_heapSort s)) = mset (fst s)"
proof (cases "fst s = []")
  case True
  then show ?thesis by (simp add: v_heapSort_def)
next
  case False
  let ?n = "length (fst s)"
  let ?s1 = "v_build ?n (?n div 2) s"
  have "heap_above (?n div 2) ?n (fst s)"
    unfolding heap_above_def by auto
  from v_build_heap[OF this] have h: "heap_above 0 ?n (fst ?s1)" and p: "perm_in 0 ?n (fst s) (fst ?s1)"
    by simp_all
  from False have n: "Suc (?n - 1) = ?n" "?n - 1 < length (fst ?s1)" by simp_all
  have "tail_sorted (Suc (?n - 1)) (fst ?s1)"
    unfolding n by (simp add: tail_sorted_def sorted_in_def)
  from v_extract_sorts[OF n(2) _ this] h n perm_in_mset[OF p] show ?thesis
    by (simp add: v_heapSort_def)
qed

lemma sorts_from_values:
  assumes "vals s' = finished elapsed (v (vals (arr, currentStats)))"
    and "sorted (fst (v (vals (arr, currentStats)))) \<and>
         mset (fst (v (vals (arr, currentStats)))) = mset (fst (vals (arr, currentStats)))"
  shows "sorted (map value (fst s')) \<and> mset (map value (fst s')) = mset (map value arr)"
proof -
  from assms(1) have "map value (fst s') = fst (v (vals (arr, currentStats)))"
    by (simp add: vals_def finished_def)
  with assms(2) show ?thesis by simp
qed

lemma interactive_empty [simp]: "interactive False ((i, fl, v) # ps) [] = Inl TypeError"
  by (auto simp: interactive_def set_prop_def elem_def)

lemma interactive_nil [simp]: "interactive isBenchmark [] a = Inr a"
  by (simp add: interactive_def)

lemma interactive_benchmark [simp]: "interactive True ps a = Inr a"
  by (simp add: interactive_def)

lemma modes_agree_from_values:
  assumes "\<And>isBenchmark. \<exists>s'. engine isBenchmark = Inr s' \<and> vals s' = v"
  shows "\<exists>s b. engine False = Inr s \<and> engine True = Inr b \<and> vals s = vals b"
proof -
  from assms[of False] obtain s where "engine False = Inr s" "vals s = v" by blast
  moreover from assms[of True] obtain b where "engine True = Inr b" "vals b = v" by blast
  ultimately show ?thesis by simp
qed

lemma drain_counts:
  "drain isBenchmark X nx x k s = Inr d \<Longrightarrow>
     comparisons (snd (snd d)) = comparisons (snd s) \<and> swaps (snd (snd d)) = swaps (snd s) + nat (nx - x)"
proof (induction isBenchmark X nx x k s rule: drain.induct)
  case (1 isBenchmark X nx x k s)
  show ?case
  proof (cases "x < nx")
    case True
    with "1.prems"(1) obtain b a1 where b: "copy_bar (elem X x) = Inr b"
      and a1: "assign k b (fst s) = Inr a1"
      and r: "drain isBenchmark X nx (x + 1) (k + 1) (a1, count_swap (snd s)) = Inr d"
      by (subst (asm) drain.simps) (auto simp: andThen_Inr_iff)
    from True have "nat (nx - x) = Suc (nat (nx - (x + 1)))" by simp
    with "1.IH"[OF True b a1 r] show ?thesis by (simp add: count_swap_def)
  next
    case False
    with "1.prems" show ?thesis by (subst (asm) drain.simps) auto
  qed
qed

lemma merge_step_places:
  assumes "merge_step isBenchmark L R (i, j, k, s) = Inr c"
  shows "comparisons (snd (snd (snd (snd c)))) = comparisons (snd s) + 1 \<and>
         swaps (snd (snd (snd (snd c)))) = swaps (snd s) + 1 \<and>
         (\<forall>l r. elem L i = Some l \<and> elem R j = Some r \<and> value l \<le> value r \<longrightarrow>
            fst c = i + 1 \<and> fst (snd c) = j \<and>
            elem (fst (snd (snd (snd c)))) k = Some (l\<lparr>isComparing := False\<rparr>))"
  using assms
  by (cases s)
     (auto simp: merge_step_def andThen_Inr_iff Let_def value_of_def copy_bar_def assign_def elem_def
           count_swap_def count_comparison_def split: if_splits option.splits)

subsection \<open>The range of the generated values\<close>

lemma round_half_even_bounds:
  "M div 2 ^ s \<le> round_half_even M s \<and> round_half_even M s \<le> M div 2 ^ s + 1"
  by (simp add: round_half_even_def Let_def)

lemma round_half_even_down:
  "2 * (M mod 2 ^ s) < 2 ^ s \<Longrightarrow> round_half_even M s = M div 2 ^ s"
  by (simp add: round_half_even_def Let_def)

lemma round_half_even_nonneg: "0 \<le> M \<Longrightarrow> 0 \<le> round_half_even M s"
  using round_half_even_bounds[of M s] pos_imp_zdiv_nonneg_iff[of "2 ^ s" M] by simp

lemma val_Double [simp]: "val (Double m e) = of_int m * 2 powi e"
  by (simp add: val_def)

lemma round_double_nonneg: "0 \<le> M \<Longrightarrow> 0 \<le> val (round_double M E)"
  by (simp add: round_double_def Let_def round_half_even_nonneg)

lemma shift_split:
  fixes M :: int and E :: int and n :: nat
  shows "of_int M * 2 powi E
       = (of_int (M div 2 ^ n) + of_int (M mod 2 ^ n) / 2 ^ n) * (2 powi (E + int n) :: real)"
proof -
  define T :: real where "T = 2 ^ n"
  define P :: real where "P = 2 powi E"
  define Q :: real where "Q = of_int (M div 2 ^ n)"
  define R :: real where "R = of_int (M mod 2 ^ n)"
  have T: "T \<noteq> 0" by (simp add: T_def)
  have "M = (M div 2 ^ n) * 2 ^ n + M mod 2 ^ n" by (rule div_mult_mod_eq[symmetric])
  then have "(of_int M :: real) = of_int ((M div 2 ^ n) * 2 ^ n + M mod 2 ^ n)" by simp
  then have m: "(of_int M :: real) = Q * T + R"
    by (simp only: of_int_add of_int_mult of_int_power of_int_numeral Q_def R_def T_def)
  have p: "(2 powi (E + int n) :: real) = P * T"
    by (simp add: power_int_add P_def T_def)
  have "(Q * T + R) * P = (Q + R / T) * (P * T)"
    using T by (simp add: field_simps)
  then show ?thesis
    unfolding m p Q_def[symmetric] R_def[symmetric] T_def[symmetric] P_def[symmetric] .
qed

lemma powi_less_D: "(2 :: real) powi a < 2 powi b \<Longrightarrow> a < b"
  using power_int_increasing[of b a "2 :: real"] by (cases "a < b") auto

lemma bitlen_powi:
  assumes "0 < M"
  shows "(2 :: real) powi (bitlen M - 1) \<le> of_int M" "of_int M < (2 :: real) powi bitlen M"
proof -
  from assms have b: "1 \<le> bitlen M" by (simp add: bitlen_alt_def)
  from bitlen_bounds[OF assms] have l: "2 ^ nat (bitlen M - 1) \<le> M" and u: "M < 2 ^ nat (bitlen M)"
    by simp_all
  from l have "(of_int (2 ^ nat (bitlen M - 1)) :: real) \<le> of_int M" by (simp only: of_int_le_iff)
  with b show "(2 :: real) powi (bitlen M - 1) \<le> of_int M" by (simp add: power_int_def)
  from u have "(of_int M :: real) < of_int (2 ^ nat (bitlen M))" by (simp only: of_int_less_iff)
  with b show "of_int M < (2 :: real) powi bitlen M" by (simp add: power_int_def)
qed

lemma round_double_below_96:
  assumes M: "0 \<le> M" and le: "of_int M * 2 powi E \<le> (96 - 96 / 2 ^ 53 :: real)"
  shows "val (round_double M E) < 96"
proof -
  define x :: real where "x = of_int M * 2 powi E"
  define s where "s = max (bitlen \<bar>M\<bar> - 53) (- 1074 - E)"
  from le have x96: "x \<le> 96 - 96 / 2 ^ 53" by (simp add: x_def)
  from M have aM: "\<bar>M\<bar> = M" by simp
  show ?thesis
  proof (cases "s \<le> 0")
    case True
    then have "round_double M E = Double M E"
      by (simp add: round_double_def s_def[symmetric] Let_def)
    with x96 show ?thesis by (simp add: x_def)
  next
    case False
    define n where "n = nat s"
    define q where "q = M div 2 ^ n"
    define f :: real where "f = of_int (M mod 2 ^ n) / 2 ^ n"
    define u :: real where "u = 2 powi (E + s)"
    define q' where "q' = round_half_even M n"
    from False have sn: "s = int n" by (simp add: n_def)
    from False have rd: "round_double M E = Double q' (E + s)"
      by (simp add: round_double_def s_def[symmetric] Let_def q'_def n_def)
    then have v: "val (round_double M E) = of_int q' * u" by (simp add: u_def)
    have xs: "x = (of_int q + f) * u"
      unfolding x_def q_def f_def u_def sn by (rule shift_split)
    have u0: "0 < u" by (simp add: u_def)
    have "0 \<le> M mod 2 ^ n" "M mod 2 ^ n < 2 ^ n" by simp_all
    then have "(0 :: real) \<le> of_int (M mod 2 ^ n)" "(of_int (M mod 2 ^ n) :: real) < of_int (2 ^ n)"
      by (simp_all only: of_int_0_le_iff of_int_less_iff)
    then have f0: "0 \<le> f" and f1: "f < 1" by (simp_all add: f_def)
    from round_half_even_bounds[of M n] have q1: "q' \<le> q + 1" by (simp add: q'_def q_def)
    have down: "q' = q" if "f < 1 / 2"
    proof -
      from that have "2 * (of_int (M mod 2 ^ n) :: real) < 2 ^ n" by (simp add: f_def field_simps)
      then have "(of_int (2 * (M mod 2 ^ n)) :: real) < of_int (2 ^ n)" by simp
      then have "2 * (M mod 2 ^ n) < 2 ^ n" by (simp only: of_int_less_iff)
      then show ?thesis unfolding q'_def q_def by (rule round_half_even_down)
    qed
    from q1 have "(of_int q' :: real) \<le> of_int q + 1" by linarith
    then have "of_int q' * u \<le> (of_int q + 1) * u" using u0 by (simp only: mult_right_mono less_imp_le)
    also have "\<dots> = of_int q * u + u" by (simp add: algebra_simps)
    also have "\<dots> \<le> x + u" using f0 u0 by (simp add: xs algebra_simps)
    finally have vxu: "val (round_double M E) \<le> x + u" by (simp add: v)
    show ?thesis
    proof (cases "x < 64")
      case True
      have "u \<le> 1"
      proof (cases "- 1074 - E \<le> bitlen \<bar>M\<bar> - 53")
        case c: True
        then have s: "s = bitlen M - 53" by (simp add: s_def aM)
        with False have "0 < bitlen M" by simp
        then have M0: "0 < M" using bitlen_eq_zero_iff[of M] by (cases "0 < M") simp_all
        from bitlen_powi(1)[OF M0] have "2 powi (bitlen M - 1) * 2 powi E \<le> x"
          unfolding x_def by (simp add: mult_right_mono)
        moreover have "(2 :: real) powi (bitlen M - 1) * 2 powi E = 2 ^ 52 * u"
        proof -
          have "(2 :: real) powi (bitlen M - 1) * 2 powi E = 2 powi (bitlen M - 1 + E)"
            by (simp add: power_int_add)
          also have "bitlen M - 1 + E = 52 + (E + s)" by (simp add: s)
          also have "(2 :: real) powi (52 + (E + s)) = 2 powi 52 * 2 powi (E + s)"
            by (rule power_int_add) simp
          finally show ?thesis by (simp add: u_def)
        qed
        ultimately have "2 ^ 52 * u \<le> x" by simp
        with True show ?thesis by simp
      next
        case c: False
        then have "s = - 1074 - E" by (simp add: s_def)
        then have "u = 2 powi (- 1074)" by (simp add: u_def)
        also have "\<dots> \<le> 2 powi 0" by (rule power_int_increasing) simp_all
        finally show ?thesis by simp
      qed
      with vxu True show ?thesis by simp
    next
      case x64: False
      then have xpos: "0 < x" by simp
      have M0: "0 < M"
      proof (rule ccontr)
        assume "\<not> 0 < M"
        with M have "M = 0" by simp
        with xpos show False by (simp add: x_def)
      qed
      have p0: "(0 :: real) < 2 powi E" by simp
      from bitlen_powi[OF M0] p0 have
        lo: "2 powi (bitlen M - 1) * 2 powi E \<le> x" and hi: "x < 2 powi bitlen M * 2 powi E"
        unfolding x_def by (simp_all add: mult_right_mono mult_strict_right_mono)
      have lo': "(2 :: real) powi (bitlen M - 1 + E) \<le> x"
        using lo by (simp add: power_int_add)
      have hi': "x < (2 :: real) powi (bitlen M + E)"
        using hi by (simp add: power_int_add)
      from x64 hi' have "(2 :: real) powi 6 < 2 powi (bitlen M + E)" by simp
      then have b1: "6 < bitlen M + E" by (rule powi_less_D)
      from lo' x96 have "(2 :: real) powi (bitlen M - 1 + E) < 2 powi 7" by simp
      then have b2: "bitlen M - 1 + E < 7" by (rule powi_less_D)
      from b1 b2 have s: "s = - 46 - E" by (simp add: s_def aM)
      then have "u = 2 powi (- 46)" by (simp add: u_def)
      then have u: "u = 1 / 2 ^ 46" by (simp add: power_int_minus_divide)
      from x96 xs u have qf: "of_int q + f \<le> 96 * 2 ^ 46 - 3 / 4" by (simp add: field_simps)
      with f0 have "(of_int q :: real) < of_int (96 * 2 ^ 46)" by simp
      then have qN: "q < 96 * 2 ^ 46" by (simp only: of_int_less_iff)
      have "q' \<le> 96 * 2 ^ 46 - 1"
      proof (cases "q = 96 * 2 ^ 46 - 1")
        case True
        with qf have "f \<le> 1 / 4" by simp
        then have "f < 1 / 2" by simp
        from down[OF this] True show ?thesis by simp
      next
        case False
        with qN q1 show ?thesis by simp
      qed
      then have "(of_int q' :: real) \<le> of_int (96 * 2 ^ 46 - 1)" by (simp only: of_int_le_iff)
      then have "of_int q' * u \<le> of_int (96 * 2 ^ 46 - 1) * u"
        using u0 by (simp only: mult_right_mono less_imp_le)
      also have "\<dots> < 96" by (simp add: u)
      finally show ?thesis by (simp add: v)
    qed
  qed
qed

lemma double_below_1:
  assumes d: "is_double r" and r0: "0 \<le> val r" and r1: "val r < 1"
  shows "0 \<le> mantissa r" "val r \<le> 1 - 1 / 2 ^ 53"
proof -
  define m where "m = mantissa r"
  define e where "e = exponent r"
  have v: "val r = of_int m * 2 powi e" by (simp add: val_def m_def e_def)
  have p: "(0 :: real) < 2 powi e" by simp
  show m0: "0 \<le> mantissa r"
  proof (rule ccontr)
    assume "\<not> 0 \<le> mantissa r"
    then have "(of_int m :: real) < 0" by (simp add: m_def)
    with p have "of_int m * 2 powi e < (0 :: real)" by (simp add: mult_neg_pos)
    with r0 v show False by simp
  qed
  from d have "\<bar>mantissa r\<bar> \<le> 2 ^ 53" unfolding is_double_def by (rule conjunct1)
  then have m53: "m \<le> 2 ^ 53" unfolding m_def by linarith
  show "val r \<le> 1 - 1 / 2 ^ 53"
  proof (cases "- 53 \<le> e")
    case True
    define k where "k = m * 2 ^ nat (e + 53)"
    have "(2 :: real) powi (e + 53) = 2 powi e * 2 powi 53" by (rule power_int_add) simp
    then have "2 powi e = (2 :: real) powi (e + 53) / 2 ^ 53" by simp
    also from True have "(2 :: real) powi (e + 53) = 2 ^ nat (e + 53)" by (simp add: power_int_def)
    finally have "val r = of_int k / 2 ^ 53" by (simp add: v k_def)
    with r1 have "(of_int k :: real) < of_int (2 ^ 53)" by simp
    then have "k < 2 ^ 53" by (simp only: of_int_less_iff)
    then have "k \<le> 2 ^ 53 - 1" by simp
    then have "(of_int k :: real) \<le> of_int (2 ^ 53 - 1)" by (simp only: of_int_le_iff)
    with \<open>val r = of_int k / 2 ^ 53\<close> show ?thesis by simp
  next
    case False
    then have "e \<le> - 54" by simp
    then have "(2 :: real) powi e \<le> 2 powi (- 54)" by (rule power_int_increasing) simp
    moreover from m53 have "(of_int m :: real) \<le> of_int (2 ^ 53)" by (simp only: of_int_le_iff)
    moreover from m0 have "(0 :: real) \<le> of_int m" by (simp add: m_def)
    ultimately have "of_int m * 2 powi e \<le> (of_int (2 ^ 53) :: real) * 2 powi (- 54)"
      by (intro mult_mono) simp_all
    also have "\<dots> = 1 / 2" by (simp add: power_int_minus_divide)
    finally show ?thesis by (simp add: v)
  qed
qed

lemma dfloor_eq: "dfloor d = Double \<lfloor>val d\<rfloor> 0"
proof (cases "0 \<le> exponent d")
  case True
  then have "val d = of_int (mantissa d * 2 ^ nat (exponent d))"
    by (simp add: val_def power_int_def)
  then have "\<lfloor>val d\<rfloor> = mantissa d * 2 ^ nat (exponent d)" by (simp only: floor_of_int)
  with True show ?thesis by (simp add: dfloor_def)
next
  case False
  then have "val d = of_int (mantissa d) / of_int (2 ^ nat (- exponent d))"
    by (simp add: val_def power_int_def field_simps)
  then have "\<lfloor>val d\<rfloor> = mantissa d div 2 ^ nat (- exponent d)"
    by (simp only: floor_divide_of_int_eq)
  with False show ?thesis by (simp add: dfloor_def)
qed

lemma dadd_small:
  assumes "0 \<le> a" "a < 2 ^ 52" "0 \<le> b" "b < 2 ^ 52"
  shows "dadd (Double a 0) (Double b 0) = Double (a + b) 0"
proof -
  from assms have "\<bar>a + b\<bar> < 2 ^ nat 53" by simp
  then have "bitlen \<bar>a + b\<bar> \<le> 53" by (simp only: bitlen_le_iff_power) simp
  then show ?thesis by (simp add: dadd_def round_double_def Let_def)
qed

lemma range_96: "dadd (dsub MAX_VALUE MIN_VALUE) (Double 1 0) = Double 96 0"
  by code_simp

lemma random_value_range:
  assumes "is_double r" "0 \<le> val r" "val r < 1"
  shows "val MIN_VALUE \<le> random_value r \<and> random_value r \<le> val MAX_VALUE \<and>
         random_value r \<in> \<int>"
proof -
  define p where "p = dmul r (Double 96 0)"
  define n where "n = \<lfloor>val p\<rfloor>"
  note b = double_below_1[OF assms]
  have p: "p = round_double (mantissa r * 96) (exponent r)" by (simp add: p_def dmul_def)
  from b(1) have m: "0 \<le> mantissa r * 96" by simp
  have "of_int (mantissa r * 96) * 2 powi exponent r = 96 * val r" by (simp add: val_def)
  also from b(2) have "\<dots> \<le> 96 - 96 / 2 ^ 53" by simp
  finally have "val p < 96" unfolding p by (rule round_double_below_96[OF m])
  moreover have "0 \<le> val p" unfolding p using m by (rule round_double_nonneg)
  ultimately have n: "0 \<le> n" "n \<le> 95" by (simp_all add: n_def floor_less_iff)
  have "random_value r = val (dadd (dfloor p) MIN_VALUE)"
    by (simp only: random_value_def range_96 p_def)
  also have "\<dots> = val (dadd (Double n 0) (Double 5 0))"
    by (simp only: dfloor_eq n_def MIN_VALUE_def)
  also from n have "dadd (Double n 0) (Double 5 0) = Double (n + 5) 0"
    by (intro dadd_small) simp_all
  finally have "random_value r = of_int (n + 5)" by simp
  with n show ?thesis by (simp add: MIN_VALUE_def MAX_VALUE_def)
qed

lemma round_double_is_double:
  assumes M: "0 \<le> M" and fin: "val (round_double M E) < 2 ^ 1024"
  shows "is_double (round_double M E)"
proof -
  define s where "s = max (bitlen \<bar>M\<bar> - 53) (- 1074 - E)"
  from M have aM: "\<bar>M\<bar> = M" by simp
  from round_double_nonneg[OF M, of E] fin have av: "\<bar>val (round_double M E)\<bar> < 2 ^ 1024" by simp
  show ?thesis
  proof (cases "s \<le> 0")
    case True
    then have rd: "round_double M E = Double M E"
      by (simp add: round_double_def s_def[symmetric] Let_def)
    from True have "bitlen M \<le> 53" "- 1074 \<le> E" by (simp_all add: s_def aM)
    then have "M < 2 ^ nat 53" "- 1074 \<le> E" by (simp_all only: bitlen_le_iff_power)
    with M av show ?thesis unfolding is_double_def rd by simp
  next
    case False
    define n where "n = nat s"
    from False have rd: "round_double M E = Double (round_half_even M n) (E + s)"
      by (simp add: round_double_def s_def[symmetric] Let_def n_def)
    from False have sn: "s = int n" by (simp add: n_def)
    have "bitlen M \<le> 53 + int n" unfolding sn[symmetric] by (simp add: s_def aM)
    then have "M < 2 ^ nat (53 + int n)" by (simp only: bitlen_le_iff_power)
    also have "nat (53 + int n) = 53 + n" by simp
    finally have "M < 2 ^ 53 * 2 ^ n" by (simp add: power_add)
    moreover have "M div 2 ^ n * 2 ^ n \<le> M"
    proof -
      have "M = M div 2 ^ n * 2 ^ n + M mod 2 ^ n" by (rule div_mult_mod_eq[symmetric])
      moreover have "0 \<le> M mod 2 ^ n" by simp
      ultimately show ?thesis by linarith
    qed
    ultimately have "M div 2 ^ n * 2 ^ n < 2 ^ 53 * 2 ^ n" by linarith
    then have "M div 2 ^ n < 2 ^ 53" by (simp only: mult_less_cancel_right) simp
    with round_half_even_bounds[of M n] round_half_even_nonneg[OF M, of n]
    have "\<bar>round_half_even M n\<bar> \<le> 2 ^ 53" by simp
    moreover have "- 1074 \<le> E + s" by (simp add: s_def)
    ultimately show ?thesis using av unfolding is_double_def rd by simp
  qed
qed

text \<open>The product of the generator is a finite double.\<close>

lemma generator_product_is_double:
  assumes "is_double r" "0 \<le> val r" "val r < 1"
  shows "is_double (dmul r (dadd (dsub MAX_VALUE MIN_VALUE) (Double 1 0)))"
proof -
  note b = double_below_1[OF assms]
  from b(1) have m: "0 \<le> mantissa r * 96" by simp
  have "of_int (mantissa r * 96) * 2 powi exponent r = 96 * val r" by (simp add: val_def)
  also from b(2) have "\<dots> \<le> 96 - 96 / 2 ^ 53" by simp
  finally have "val (round_double (mantissa r * 96) (exponent r)) < 96"
    by (rule round_double_below_96[OF m])
  then have "val (round_double (mantissa r * 96) (exponent r)) < 2 ^ 1024" by simp
  from round_double_is_double[OF m this] show ?thesis
    by (simp add: range_96 dmul_def)
qed












lemma partition_step_swaps:
  "partition_step isBenchmark pivot high j c = Inr c2 \<Longrightarrow>
     int (swaps (snd (snd c2))) = int (swaps (snd (snd c))) + (fst c2 - fst c)"
  by (auto simp: partition_step_def andThen_Inr_iff Let_def count_swap_def count_comparison_def
           split: if_splits)

lemma partition_loop_swaps:
  "partition_loop isBenchmark pivot high j c = Inr c' \<Longrightarrow>
     int (swaps (snd (snd c'))) = int (swaps (snd (snd c))) + (fst c' - fst c)"
proof (induction isBenchmark pivot high j c rule: partition_loop.induct)
  case (1 isBenchmark pivot high j c)
  show ?case
  proof (cases "j < high")
    case True
    with "1.prems"(1) obtain c1 where
      s: "partition_step isBenchmark pivot high j c = Inr c1" and
      r: "partition_loop isBenchmark pivot high (j + 1) c1 = Inr c'"
      by (subst (asm) partition_loop.simps) (auto simp: andThen_Inr_iff)
    from "1.IH"[OF True s r] partition_step_swaps[OF s] show ?thesis by simp
  next
    case False
    with "1.prems" show ?thesis by (subst (asm) partition_loop.simps) simp
  qed
qed

lemma partition_qs_swaps:
  "partition_qs isBenchmark low high s = Inr r \<Longrightarrow>
     int (swaps (snd (snd r))) = int (swaps (snd s)) + (fst r - low) + 1"
  by (auto simp: partition_qs_def andThen_Inr_iff Let_def count_swap_def dest!: partition_loop_swaps)

lemma heapify_select_comparisons:
  "heapify_select isBenchmark n i s = Inr r \<Longrightarrow>
     comparisons (snd (snd r)) = comparisons (snd s) + 2 \<and> swaps (snd (snd r)) = swaps (snd s)"
  by (auto simp: heapify_select_def andThen_Inr_iff Let_def count_comparison_def split: if_splits)

lemma heapify_select_leaf:
  "n \<le> 2 * i + 1 \<Longrightarrow>
     heapify_select True n i s = Inr (i, fst s, count_comparison (count_comparison (snd s)))"
  by (simp add: heapify_select_def Let_def)

subsection \<open>Bounds on the counts of quick sort and heap sort\<close>

fun tri :: "nat \<Rightarrow> nat" where
  "tri 0 = 0"
| "tri (Suc n) = n + tri n"

lemma tri_add: "tri (a + b) = tri a + tri b + a * b"
  by (induction b) (simp_all add: algebra_simps)

lemma tri_closed: "2 * tri n = n * (n - 1)"
  by (induction n) (simp_all add: algebra_simps)

lemma tri_step: "a + b + tri a + tri b \<le> tri (Suc (a + b))"
  by (simp add: tri_add)

lemma tri_swaps_step:
  "1 \<le> a + b \<Longrightarrow> a + 1 + (tri (Suc a) - 1) + (tri (Suc b) - 1) \<le> tri (Suc (Suc (a + b))) - 1"
  by (cases a; cases b) (simp_all add: tri_add algebra_simps)

lemma v_partition_step_counts:
  "comparisons (snd (snd (v_partition_step pivot j c))) = comparisons (snd (snd c)) + 1 \<and>
   swaps (snd (snd (v_partition_step pivot j c))) + fst c
     = swaps (snd (snd c)) + fst (v_partition_step pivot j c)"
  by (simp add: v_partition_step_def Let_def count_comparison_def count_swap_def)

lemma v_partition_loop_counts:
  "comparisons (snd (snd (v_partition_loop pivot k j c))) = comparisons (snd (snd c)) + k \<and>
   swaps (snd (snd (v_partition_loop pivot k j c))) + fst c
     = swaps (snd (snd c)) + fst (v_partition_loop pivot k j c)"
proof (induction k arbitrary: j c)
  case 0
  show ?case by simp
next
  case (Suc k)
  from Suc.IH[of "j + 1" "v_partition_step pivot j c"] v_partition_step_counts[of pivot j c]
  show ?case by simp
qed

lemma v_partition_counts:
  "comparisons (snd (snd (v_partition low high s))) = comparisons (snd s) + (high - low) \<and>
   swaps (snd (snd (v_partition low high s))) + low
     = swaps (snd s) + fst (v_partition low high s) + 1"
  using v_partition_loop_counts[of "fst s ! high" "high - low" low "(low, s)"]
  by (simp add: v_partition_def Let_def count_swap_def)

lemma v_quick_counts:
  "comparisons (snd (v_quick low high s)) \<le> comparisons (snd s) + tri (high + 1 - low) \<and>
   swaps (snd (v_quick low high s)) \<le> swaps (snd s) + (tri (Suc (high + 1 - low)) - 1)"
proof (induction low high s rule: v_quick.induct)
  case (1 low high s)
  show ?case
  proof (cases "low < high")
    case True
    define r where "r = v_partition low high s"
    define p where "p = fst r"
    define s1 where "s1 = v_quick low (p - 1) (snd r)"
    define a where "a = p - low"
    define b where "b = high - p"
    from True v_partition_fst[of low high s] have pb: "low \<le> p" "p \<le> high"
      by (simp_all add: p_def r_def)
    have q: "v_quick low high s = v_quick (p + 1) high s1"
      using True by (subst v_quick.simps) (simp add: Let_def r_def p_def s1_def)
    have ta: "tri (p - 1 + 1 - low) = tri a" "tri (Suc (p - 1 + 1 - low)) - 1 = tri (Suc a) - 1"
      using pb by (cases p; simp add: a_def)+
    have tb: "high + 1 - (p + 1) = b" by (simp add: b_def)
    from pb True have ab: "high + 1 - low = Suc (a + b)" "high - low = a + b" "1 \<le> a + b"
      by (simp_all add: a_def b_def)
    from v_partition_counts[of low high s]
    have vp: "comparisons (snd (snd r)) = comparisons (snd s) + (high - low)"
      "swaps (snd (snd r)) + low = swaps (snd s) + p + 1"
      by (simp_all add: r_def p_def)
    from vp(1) ab(2) have c0: "comparisons (snd (snd r)) = comparisons (snd s) + (a + b)"
      by simp
    from vp(2) pb(1) have w0: "swaps (snd (snd r)) = swaps (snd s) + a + 1"
      unfolding a_def by linarith
    from "1.IH"(1)[OF True r_def p_def] ta
    have c1: "comparisons (snd s1) \<le> comparisons (snd (snd r)) + tri a"
      and w1: "swaps (snd s1) \<le> swaps (snd (snd r)) + (tri (Suc a) - 1)"
      by (simp_all add: s1_def)
    from "1.IH"(2)[OF True r_def p_def] tb
    have c2: "comparisons (snd (v_quick (p + 1) high s1)) \<le> comparisons (snd s1) + tri b"
      and w2: "swaps (snd (v_quick (p + 1) high s1)) \<le> swaps (snd s1) + (tri (Suc b) - 1)"
      by (simp_all add: s1_def)
    from c0 c1 c2 tri_step[of a b]
    have "comparisons (snd (v_quick (p + 1) high s1)) \<le> comparisons (snd s) + tri (Suc (a + b))"
      by linarith
    moreover from w0 w1 w2 tri_swaps_step[OF ab(3)]
    have "swaps (snd (v_quick (p + 1) high s1)) \<le> swaps (snd s) + (tri (Suc (Suc (a + b))) - 1)"
      by linarith
    ultimately show ?thesis unfolding q ab by blast
  next
    case False
    then show ?thesis by (subst (1 2) v_quick.simps) simp
  qed
qed

lemma v_quickSort_counts:
  "comparisons (snd (v_quickSort s)) \<le> comparisons (snd s) + tri (length (fst s)) \<and>
   swaps (snd (v_quickSort s)) \<le> swaps (snd s) + (tri (Suc (length (fst s))) - 1)"
proof (cases "fst s = []")
  case True
  then show ?thesis unfolding v_quickSort_def by (subst (1 2) v_quick.simps) simp
next
  case False
  then have e: "length (fst s) - 1 + 1 - 0 = length (fst s)" by simp
  from v_quick_counts[of 0 "length (fst s) - 1" s] show ?thesis
    by (simp only: e v_quickSort_def)
qed

text \<open>
  The nodes on the leftmost path from node \<open>i\<close> in a heap of \<open>n\<close> elements; no path from
  \<open>i\<close> has more.
\<close>

function levels :: "nat \<Rightarrow> nat \<Rightarrow> nat" where
  "levels n i = (if 2 * i + 1 < n then Suc (levels n (2 * i + 1)) else 1)"
  by pat_completeness auto
termination
  by (relation "measure (\<lambda>(n, i). n - i)") auto

declare levels.simps [simp del]

lemma levels_pos: "1 \<le> levels n i"
  by (subst levels.simps) simp

lemma levels_antitone: "i \<le> j \<Longrightarrow> levels n j \<le> levels n i"
proof (induction n j arbitrary: i rule: levels.induct)
  case (1 n j)
  show ?case
  proof (cases "2 * j + 1 < n")
    case True
    with "1.prems" have "2 * i + 1 < n" "2 * i + 1 \<le> 2 * j + 1" by simp_all
    with "1.IH"[OF True, of "2 * i + 1"] True show ?thesis
      by (subst (1 2) levels.simps) simp
  next
    case False
    with levels_pos[of n i] show ?thesis by (subst levels.simps) simp
  qed
qed

lemma v_heapify_counts:
  "comparisons (snd (v_heapify n i s)) \<le> comparisons (snd s) + 2 * levels n i \<and>
   swaps (snd (v_heapify n i s)) + 1 \<le> swaps (snd s) + levels n i"
proof (induction n i s rule: v_heapify.induct)
  case (1 n i s)
  define m where "m = v_largest n i (fst s)"
  show ?case
  proof (cases "m = i")
    case True
    then have "v_heapify n i s = (fst s, count_comparison (count_comparison (snd s)))"
      by (subst v_heapify.simps) (simp add: Let_def m_def)
    with levels_pos[of n i] show ?thesis by (simp add: count_comparison_def)
  next
    case False
    with v_largest_cases[of n i "fst s"] have mc: "2 * i + 1 \<le> m" "2 * i + 1 < n"
      by (auto simp: m_def)
    from levels_antitone[OF mc(1), of n] mc(2) have l: "Suc (levels n m) \<le> levels n i"
      by (subst (2) levels.simps) simp
    have h: "v_heapify n i s
        = v_heapify n m (swap_list i m (fst s), count_swap (count_comparison (count_comparison (snd s))))"
      using False by (subst v_heapify.simps) (simp add: Let_def m_def)
    from "1.IH"[OF m_def refl False] l show ?thesis
      unfolding h by (simp add: count_comparison_def count_swap_def)
  qed
qed

fun build_levels :: "nat \<Rightarrow> nat \<Rightarrow> nat" where
  "build_levels n 0 = 0"
| "build_levels n (Suc k) = levels n k + build_levels n k"

fun extract_levels :: "nat \<Rightarrow> nat" where
  "extract_levels 0 = 0"
| "extract_levels (Suc m) = levels (Suc m) 0 + extract_levels m"

lemma v_build_counts:
  "comparisons (snd (v_build n k s)) \<le> comparisons (snd s) + 2 * build_levels n k \<and>
   swaps (snd (v_build n k s)) + k \<le> swaps (snd s) + build_levels n k"
proof (induction k arbitrary: s)
  case 0
  show ?case by simp
next
  case (Suc k)
  from Suc.IH[of "v_heapify n k s"] v_heapify_counts[of n k s] show ?case by simp
qed

lemma v_extract_counts:
  "comparisons (snd (v_extract m s)) \<le> comparisons (snd s) + 2 * extract_levels m \<and>
   swaps (snd (v_extract m s)) \<le> swaps (snd s) + extract_levels m"
proof (induction m arbitrary: s)
  case 0
  show ?case by simp
next
  case (Suc m)
  from Suc.IH[of "v_heapify (Suc m) 0 (swap_list 0 (Suc m) (fst s), count_swap (snd s))"]
    v_heapify_counts[of "Suc m" 0 "(swap_list 0 (Suc m) (fst s), count_swap (snd s))"]
  show ?case by (simp add: count_swap_def)
qed

lemma v_heapSort_counts:
  "comparisons (snd (v_heapSort s))
     \<le> comparisons (snd s)
       + 2 * (build_levels (length (fst s)) (length (fst s) div 2) + extract_levels (length (fst s) - 1)) \<and>
   swaps (snd (v_heapSort s)) + length (fst s) div 2
     \<le> swaps (snd s)
       + (build_levels (length (fst s)) (length (fst s) div 2) + extract_levels (length (fst s) - 1))"
  using v_build_counts[of "length (fst s)" "length (fst s) div 2" s]
    v_extract_counts[of "length (fst s) - 1" "v_build (length (fst s)) (length (fst s) div 2) s"]
  by (simp add: v_heapSort_def)

lemma tri_comparisons_closed: "n * (n - 1) div 2 = tri n"
  using tri_closed[of n] by simp

lemma tri_swaps_closed: "(n - 1) * (n + 2) div 2 = tri (Suc n) - 1"
proof (cases n)
  case 0
  show ?thesis by (simp add: 0)
next
  case (Suc m)
  define X where "X = tri (Suc (Suc m)) - 1"
  have "2 * tri (Suc (Suc m)) = Suc (Suc m) * Suc m" using tri_closed[of "Suc (Suc m)"] by simp
  then have e2: "m * (m + 3) = 2 * X" by (simp add: algebra_simps X_def)
  have e1: "(Suc m - 1) * (Suc m + 2) = m * (m + 3)" by (simp add: algebra_simps)
  show ?thesis unfolding Suc e1 e2 X_def[symmetric] by simp
qed

lemma quickSort_counts:
  "\<exists>q. quickSort elapsed arr currentStats isBenchmark = Inr q \<and>
       comparisons (snd q) \<le> comparisons currentStats + tri (length arr) \<and>
       swaps (snd q) \<le> swaps currentStats + (tri (Suc (length arr)) - 1)"
proof -
  from quickSort_refines[of elapsed arr currentStats isBenchmark] obtain q where
    q: "quickSort elapsed arr currentStats isBenchmark = Inr q" and
    v: "vals q = finished elapsed (v_quickSort (vals (arr, currentStats)))" by blast
  from v have "snd q = (snd (v_quickSort (map value arr, currentStats)))\<lparr>timeElapsed := elapsed\<rparr>"
    by (simp add: vals_def finished_def)
  with v_quickSort_counts[of "(map value arr, currentStats)"] q show ?thesis by simp
qed

lemma heapSort_counts:
  assumes "isBenchmark \<or> arr \<noteq> []"
  shows "\<exists>h. heapSort elapsed arr currentStats isBenchmark = Inr h \<and>
       comparisons (snd h) \<le> comparisons currentStats
         + 2 * (build_levels (length arr) (length arr div 2) + extract_levels (length arr - 1)) \<and>
       swaps (snd h) + length arr div 2 \<le> swaps currentStats
         + (build_levels (length arr) (length arr div 2) + extract_levels (length arr - 1))"
proof -
  from heapSort_refines[OF assms, of elapsed currentStats] obtain h where
    h: "heapSort elapsed arr currentStats isBenchmark = Inr h" and
    v: "vals h = finished elapsed (v_heapSort (vals (arr, currentStats)))" by blast
  from v have "snd h = (snd (v_heapSort (map value arr, currentStats)))\<lparr>timeElapsed := elapsed\<rparr>"
    by (simp add: vals_def finished_def)
  with v_heapSort_counts[of "(map value arr, currentStats)"] h show ?thesis by simp
qed

section \<open>The claims\<close>

subsection \<open>C4: bubble sort on 5, 3, 8, 1\<close>

text \<open>
  The inversions of a list: the pairs of positions that hold their elements in the
  wrong order.
\<close>

definition inversions :: "real list \<Rightarrow> nat" where
  "inversions xs =
     length (filter (\<lambda>p. fst p < snd p \<and> xs ! fst p > xs ! snd p)
               (List.product [0..<length xs] [0..<length xs]))"

text \<open>
  C4. On the bars of 5, 3, 8, 1 and fresh statistics, \<^verbatim>\<open>bubbleSort\<close> returns the bars
  of 1, 3, 5, 8 with exactly 6 comparisons and exactly 4 swaps, in benchmark mode and
  (with the same values and counts) in interactive mode. 6 is \<open>n * (n - 1) / 2\<close> for
  \<open>n = 4\<close>, and 4 is the number of inversions of the input.
\<close>

theorem bubbleSort_5_3_8_1:
  "bubbleSort elapsed (map new_bar [5, 3, 8, 1]) testStats True
     = Inr (map new_bar [1, 3, 5, 8], \<lparr>comparisons = 6, swaps = 4, timeElapsed = elapsed\<rparr>)
   \<and> map_sum id vals (bubbleSort elapsed (map new_bar [5, 3, 8, 1]) testStats False)
     = Inr ([1, 3, 5, 8], \<lparr>comparisons = 6, swaps = 4, timeElapsed = elapsed\<rparr>)
   \<and> (6 :: nat) = 4 * (4 - 1) div 2
   \<and> inversions [5, 3, 8, 1] = 4"
proof -
  have "bubbleSort elapsed (map new_bar [5, 3, 8, 1]) testStats True
     = Inr (map new_bar [1, 3, 5, 8], \<lparr>comparisons = 6, swaps = 4, timeElapsed = elapsed\<rparr>)"
    by code_simp
  moreover have "map_sum id vals (bubbleSort elapsed (map new_bar [5, 3, 8, 1]) testStats False)
     = Inr ([1, 3, 5, 8], \<lparr>comparisons = 6, swaps = 4, timeElapsed = elapsed\<rparr>)"
    by code_simp
  moreover have "inversions [5, 3, 8, 1] = 4"
    by code_simp
  ultimately show ?thesis by simp
qed

subsection \<open>C1: the four engines sort\<close>

text \<open>
  C1. For every non-empty array, each of the four engines in benchmark mode returns an
  array whose values are in non-decreasing order and are, as a multiset, the values of
  the input.
\<close>

theorem engines_sort_in_benchmark_mode:
  assumes "arr \<noteq> []"
  shows "(\<exists>out st. bubbleSort elapsed arr currentStats True = Inr (out, st) \<and>
            sorted (map value out) \<and> mset (map value out) = mset (map value arr)) \<and>
         (\<exists>out st. quickSort elapsed arr currentStats True = Inr (out, st) \<and>
            sorted (map value out) \<and> mset (map value out) = mset (map value arr)) \<and>
         (\<exists>out st. mergeSort elapsed arr currentStats True = Inr (out, st) \<and>
            sorted (map value out) \<and> mset (map value out) = mset (map value arr)) \<and>
         (\<exists>out st. heapSort elapsed arr currentStats True = Inr (out, st) \<and>
            sorted (map value out) \<and> mset (map value out) = mset (map value arr))"
proof (intro conjI)
  from bubbleSort_refines[of True arr elapsed currentStats] obtain s' where
    "bubbleSort elapsed arr currentStats True = Inr s'"
    "vals s' = finished elapsed (v_bubbleSort (vals (arr, currentStats)))" by auto
  with sorts_from_values[where v = v_bubbleSort, OF this(2) v_bubbleSort_sorts]
  show "\<exists>out st. bubbleSort elapsed arr currentStats True = Inr (out, st) \<and>
            sorted (map value out) \<and> mset (map value out) = mset (map value arr)"
    by (cases s') auto
next
  from quickSort_refines[of elapsed arr currentStats True] obtain s' where
    "quickSort elapsed arr currentStats True = Inr s'"
    "vals s' = finished elapsed (v_quickSort (vals (arr, currentStats)))" by auto
  with sorts_from_values[where v = v_quickSort, OF this(2) v_quickSort_sorts]
  show "\<exists>out st. quickSort elapsed arr currentStats True = Inr (out, st) \<and>
            sorted (map value out) \<and> mset (map value out) = mset (map value arr)"
    by (cases s') auto
next
  from mergeSort_refines[of elapsed arr currentStats True] obtain s' where
    "mergeSort elapsed arr currentStats True = Inr s'"
    "vals s' = finished elapsed (v_mergeSort (vals (arr, currentStats)))" by auto
  with sorts_from_values[where v = v_mergeSort, OF this(2) v_mergeSort_sorts]
  show "\<exists>out st. mergeSort elapsed arr currentStats True = Inr (out, st) \<and>
            sorted (map value out) \<and> mset (map value out) = mset (map value arr)"
    by (cases s') auto
next
  from heapSort_refines[of True arr elapsed currentStats] obtain s' where
    "heapSort elapsed arr currentStats True = Inr s'"
    "vals s' = finished elapsed (v_heapSort (vals (arr, currentStats)))" by auto
  with sorts_from_values[where v = v_heapSort, OF this(2) v_heapSort_sorts]
  show "\<exists>out st. heapSort elapsed arr currentStats True = Inr (out, st) \<and>
            sorted (map value out) \<and> mset (map value out) = mset (map value arr)"
    by (cases s') auto
qed

theorem engines_sort_in_benchmark_mode_witness:
  "map new_bar [3, 1, 2] \<noteq> [] \<and>
   (\<exists>out st. bubbleSort 0 (map new_bar [3, 1, 2]) testStats True = Inr (out, st) \<and>
      sorted (map value out) \<and> mset (map value out) = mset (map value (map new_bar [3, 1, 2]))) \<and>
   (\<exists>out st. quickSort 0 (map new_bar [3, 1, 2]) testStats True = Inr (out, st) \<and>
      sorted (map value out) \<and> mset (map value out) = mset (map value (map new_bar [3, 1, 2]))) \<and>
   (\<exists>out st. mergeSort 0 (map new_bar [3, 1, 2]) testStats True = Inr (out, st) \<and>
      sorted (map value out) \<and> mset (map value out) = mset (map value (map new_bar [3, 1, 2]))) \<and>
   (\<exists>out st. heapSort 0 (map new_bar [3, 1, 2]) testStats True = Inr (out, st) \<and>
      sorted (map value out) \<and> mset (map value out) = mset (map value (map new_bar [3, 1, 2])))"
proof -
  have ne: "map new_bar [3, 1, 2] \<noteq> []" by simp
  from engines_sort_in_benchmark_mode[OF ne, of 0 testStats] ne show ?thesis by blast
qed

subsection \<open>C6: the empty array\<close>

text \<open>
  C6. On the empty array, every engine in benchmark mode, and \<^verbatim>\<open>quickSort\<close> and
  \<^verbatim>\<open>mergeSort\<close> in interactive mode, return the empty array and leave the counters of
  the statistics as they were. \<^verbatim>\<open>bubbleSort\<close> and \<^verbatim>\<open>heapSort\<close> in interactive mode throw
  a TypeError instead: their last block assigns \<^verbatim>\<open>workingArray[0].isSorted\<close>, and
  \<^verbatim>\<open>workingArray[0]\<close> is \<^verbatim>\<open>undefined\<close>.
\<close>

theorem engines_on_the_empty_array:
  "bubbleSort elapsed [] st True = Inr ([], st\<lparr>timeElapsed := elapsed\<rparr>) \<and>
   quickSort elapsed [] st True = Inr ([], st\<lparr>timeElapsed := elapsed\<rparr>) \<and>
   mergeSort elapsed [] st True = Inr ([], st\<lparr>timeElapsed := elapsed\<rparr>) \<and>
   heapSort elapsed [] st True = Inr ([], st\<lparr>timeElapsed := elapsed\<rparr>) \<and>
   quickSort elapsed [] st False = Inr ([], st\<lparr>timeElapsed := elapsed\<rparr>) \<and>
   mergeSort elapsed [] st False = Inr ([], st\<lparr>timeElapsed := elapsed\<rparr>) \<and>
   bubbleSort elapsed [] st False = Inl TypeError \<and>
   heapSort elapsed [] st False = Inl TypeError"
  by (simp add: bubbleSort_def quickSort_def mergeSort_def heapSort_def
        bubble_outer.simps quickSortHelper.simps mergeSortHelper.simps
        build_heap.simps extract_loop.simps)

subsection \<open>C2: the two modes\<close>

text \<open>
  C2. For every non-empty array, each engine returns in both modes, with the same
  values in the same order and the same statistics (comparisons, swaps and the elapsed
  time it is given); \<^verbatim>\<open>quickSort\<close> and \<^verbatim>\<open>mergeSort\<close> do so for the empty array too. On the
  empty array \<^verbatim>\<open>bubbleSort\<close> and \<^verbatim>\<open>heapSort\<close> return in benchmark mode and throw a
  TypeError in interactive mode, where the claim fails.
\<close>

theorem modes_agree:
  "(arr \<noteq> [] \<longrightarrow>
      (\<exists>s b. bubbleSort elapsed arr currentStats False = Inr s \<and>
             bubbleSort elapsed arr currentStats True = Inr b \<and> vals s = vals b) \<and>
      (\<exists>s b. heapSort elapsed arr currentStats False = Inr s \<and>
             heapSort elapsed arr currentStats True = Inr b \<and> vals s = vals b)) \<and>
   (\<exists>s b. quickSort elapsed arr currentStats False = Inr s \<and>
          quickSort elapsed arr currentStats True = Inr b \<and> vals s = vals b) \<and>
   (\<exists>s b. mergeSort elapsed arr currentStats False = Inr s \<and>
          mergeSort elapsed arr currentStats True = Inr b \<and> vals s = vals b) \<and>
   bubbleSort elapsed [] currentStats True = Inr ([], currentStats\<lparr>timeElapsed := elapsed\<rparr>) \<and>
   bubbleSort elapsed [] currentStats False = Inl TypeError \<and>
   heapSort elapsed [] currentStats True = Inr ([], currentStats\<lparr>timeElapsed := elapsed\<rparr>) \<and>
   heapSort elapsed [] currentStats False = Inl TypeError"
proof -
  have bubble: "\<exists>s b. bubbleSort elapsed arr currentStats False = Inr s \<and>
             bubbleSort elapsed arr currentStats True = Inr b \<and> vals s = vals b" if "arr \<noteq> []"
  proof (rule modes_agree_from_values)
    fix isBenchmark
    from that show "\<exists>s'. bubbleSort elapsed arr currentStats isBenchmark = Inr s' \<and>
        vals s' = finished elapsed (v_bubbleSort (vals (arr, currentStats)))"
      by (intro bubbleSort_refines) simp
  qed
  have heap: "\<exists>s b. heapSort elapsed arr currentStats False = Inr s \<and>
             heapSort elapsed arr currentStats True = Inr b \<and> vals s = vals b" if "arr \<noteq> []"
  proof (rule modes_agree_from_values)
    fix isBenchmark
    from that show "\<exists>s'. heapSort elapsed arr currentStats isBenchmark = Inr s' \<and>
        vals s' = finished elapsed (v_heapSort (vals (arr, currentStats)))"
      by (intro heapSort_refines) simp
  qed
  have quick: "\<exists>s b. quickSort elapsed arr currentStats False = Inr s \<and>
          quickSort elapsed arr currentStats True = Inr b \<and> vals s = vals b"
    by (rule modes_agree_from_values) (rule quickSort_refines)
  have merge: "\<exists>s b. mergeSort elapsed arr currentStats False = Inr s \<and>
          mergeSort elapsed arr currentStats True = Inr b \<and> vals s = vals b"
    by (rule modes_agree_from_values) (rule mergeSort_refines)
  have empty: "bubbleSort elapsed [] currentStats True = Inr ([], currentStats\<lparr>timeElapsed := elapsed\<rparr>)"
    "bubbleSort elapsed [] currentStats False = Inl TypeError"
    "heapSort elapsed [] currentStats True = Inr ([], currentStats\<lparr>timeElapsed := elapsed\<rparr>)"
    "heapSort elapsed [] currentStats False = Inl TypeError"
    by (simp_all add: bubbleSort_def heapSort_def bubble_outer.simps build_heap.simps extract_loop.simps)
  from bubble heap quick merge empty show ?thesis by blast
qed

theorem modes_agree_witness:
  "map new_bar [2, 3, 1] \<noteq> [] \<and>
   (\<exists>s b. bubbleSort 0 (map new_bar [2, 3, 1]) testStats False = Inr s \<and>
          bubbleSort 0 (map new_bar [2, 3, 1]) testStats True = Inr b \<and> vals s = vals b) \<and>
   (\<exists>s b. heapSort 0 (map new_bar [2, 3, 1]) testStats False = Inr s \<and>
          heapSort 0 (map new_bar [2, 3, 1]) testStats True = Inr b \<and> vals s = vals b)"
proof -
  have ne: "map new_bar [2, 3, 1] \<noteq> []" by simp
  from modes_agree[of "map new_bar [2, 3, 1]" 0 testStats] ne show ?thesis by blast
qed

subsection \<open>C3: merge sort on 2, 1 and on 1, 1\<close>

text \<open>
  C3. The two bars of value 1 are told apart by a flag that \<^verbatim>\<open>mergeSort\<close> copies
  (\<^verbatim>\<open>isSorted\<close>): the tagged bar starts on the left and stays there. Each step of the
  first loop of \<^verbatim>\<open>merge\<close> counts one comparison and one swap, and places the head of
  the left run when it is not larger than the head of the right run. The two other
  loops count one swap for each element they move, and no comparison.
\<close>

theorem mergeSort_counts_and_ties:
  "mergeSort elapsed (map new_bar [2, 1]) testStats True
     = Inr (map new_bar [1, 2], \<lparr>comparisons = 1, swaps = 2, timeElapsed = elapsed\<rparr>) \<and>
   mergeSort elapsed [(new_bar 1)\<lparr>isSorted := True\<rparr>, new_bar 1] testStats True
     = Inr ([(new_bar 1)\<lparr>isSorted := True\<rparr>, new_bar 1],
            \<lparr>comparisons = 1, swaps = 2, timeElapsed = elapsed\<rparr>) \<and>
   map_sum id vals (mergeSort elapsed (map new_bar [2, 1]) testStats False)
     = Inr ([1, 2], \<lparr>comparisons = 1, swaps = 2, timeElapsed = elapsed\<rparr>) \<and>
   map_sum id vals (mergeSort elapsed (map new_bar [1, 1]) testStats False)
     = Inr ([1, 1], \<lparr>comparisons = 1, swaps = 2, timeElapsed = elapsed\<rparr>) \<and>
   (merge_step isBenchmark L R (i, j, k, s) = Inr c \<longrightarrow>
      comparisons (snd (snd (snd (snd c)))) = comparisons (snd s) + 1 \<and>
      swaps (snd (snd (snd (snd c)))) = swaps (snd s) + 1 \<and>
      (\<forall>l r. elem L i = Some l \<and> elem R j = Some r \<and> value l \<le> value r \<longrightarrow>
         fst c = i + 1 \<and> fst (snd c) = j \<and>
         elem (fst (snd (snd (snd c)))) k = Some (l\<lparr>isComparing := False\<rparr>))) \<and>
   (drain isBenchmark X nx x k' s' = Inr d \<longrightarrow>
      comparisons (snd (snd d)) = comparisons (snd s') \<and>
      swaps (snd (snd d)) = swaps (snd s') + nat (nx - x))"
proof -
  have "mergeSort elapsed (map new_bar [2, 1]) testStats True
     = Inr (map new_bar [1, 2], \<lparr>comparisons = 1, swaps = 2, timeElapsed = elapsed\<rparr>)"
    by code_simp
  moreover have "mergeSort elapsed [(new_bar 1)\<lparr>isSorted := True\<rparr>, new_bar 1] testStats True
     = Inr ([(new_bar 1)\<lparr>isSorted := True\<rparr>, new_bar 1],
            \<lparr>comparisons = 1, swaps = 2, timeElapsed = elapsed\<rparr>)"
    by code_simp
  moreover have "map_sum id vals (mergeSort elapsed (map new_bar [2, 1]) testStats False)
     = Inr ([1, 2], \<lparr>comparisons = 1, swaps = 2, timeElapsed = elapsed\<rparr>)"
    by code_simp
  moreover have "map_sum id vals (mergeSort elapsed (map new_bar [1, 1]) testStats False)
     = Inr ([1, 1], \<lparr>comparisons = 1, swaps = 2, timeElapsed = elapsed\<rparr>)"
    by code_simp
  ultimately show ?thesis
    using merge_step_places[of isBenchmark L R i j k s c] drain_counts[of isBenchmark X nx x k' s' d]
    by blast
qed

theorem mergeSort_counts_and_ties_witness:
  "merge_step True [new_bar 1] [new_bar 1] (0, 0, 0, [new_bar 1, new_bar 1], testStats)
     = Inr (1, 0, 1, [new_bar 1, new_bar 1], \<lparr>comparisons = 1, swaps = 1, timeElapsed = 0\<rparr>) \<and>
   comparisons \<lparr>comparisons = 1, swaps = 1, timeElapsed = 0\<rparr> = comparisons testStats + 1 \<and>
   drain True [new_bar 7] 1 0 0 ([new_bar 3], testStats)
     = Inr (1, [new_bar 7], \<lparr>comparisons = 0, swaps = 1, timeElapsed = 0\<rparr>) \<and>
   swaps \<lparr>comparisons = 0, swaps = 1, timeElapsed = 0\<rparr> = swaps testStats + nat (1 - 0)"
proof -
  have a: "merge_step True [new_bar 1] [new_bar 1] (0, 0, 0, [new_bar 1, new_bar 1], testStats)
     = Inr (1, 0, 1, [new_bar 1, new_bar 1], \<lparr>comparisons = 1, swaps = 1, timeElapsed = 0\<rparr>)"
    by code_simp
  have b: "drain True [new_bar 7] 1 0 0 ([new_bar 3], testStats)
     = Inr (1, [new_bar 7], \<lparr>comparisons = 0, swaps = 1, timeElapsed = 0\<rparr>)"
    by code_simp
  from mergeSort_counts_and_ties[of 0 True "[new_bar 1]" "[new_bar 1]" 0 0 0
      "([new_bar 1, new_bar 1], testStats)"
      "(1, 0, 1, [new_bar 1, new_bar 1], \<lparr>comparisons = 1, swaps = 1, timeElapsed = 0\<rparr>)"
      "[new_bar 7]" 1 0 0 "([new_bar 3], testStats)"
      "(1, [new_bar 7], \<lparr>comparisons = 0, swaps = 1, timeElapsed = 0\<rparr>)"] a b
  show ?thesis by simp
qed

subsection \<open>C8: the generated array\<close>

text \<open>
  C8 speaks of a length and a range that the call requests. \<^verbatim>\<open>generateArray\<close> takes no
  arguments: when every call of \<^verbatim>\<open>Math.random()\<close> returns 1/2, its array has 50 bars
  and the first has the value 53, which is not what a request for 10 values from 1 to 3
  asks for.
\<close>

theorem generateArray_takes_no_request:
  "length (generateArray (\<lambda>k. Double 1 (- 1))) = 50 \<and>
   length (generateArray (\<lambda>k. Double 1 (- 1))) \<noteq> 10 \<and>
   value (generateArray (\<lambda>k. Double 1 (- 1)) ! 0) = 53 \<and>
   \<not> value (generateArray (\<lambda>k. Double 1 (- 1)) ! 0) \<le> 3"
proof -
  have "random_value (Double 1 (- 1)) = 53" by code_simp
  then show ?thesis by (simp add: generateArray_def ARRAY_SIZE_def new_bar_def)
qed

text \<open>
  C8, amended. \<^verbatim>\<open>generateArray\<close> takes no arguments: the length is \<^verbatim>\<open>ARRAY_SIZE\<close>, 50,
  and the range is \<^verbatim>\<open>MIN_VALUE\<close> to \<^verbatim>\<open>MAX_VALUE\<close>, 5 to 100. When every call of
  \<^verbatim>\<open>Math.random()\<close> returns a double from 0 to below 1, its array has exactly
  \<^verbatim>\<open>ARRAY_SIZE\<close> bars, each with a value from \<^verbatim>\<open>MIN_VALUE\<close> to \<^verbatim>\<open>MAX_VALUE\<close> and no flag
  set; the test array that \<^verbatim>\<open>runBenchmarks\<close> builds for a size has exactly that size and
  values in the same range.
\<close>

theorem generated_arrays_in_range:
  assumes "\<forall>k. is_double (random k) \<and> 0 \<le> val (random k) \<and> val (random k) < 1"
  shows "length (generateArray random) = ARRAY_SIZE \<and>
         (\<forall>b \<in> set (generateArray random).
            val MIN_VALUE \<le> value b \<and> value b \<le> val MAX_VALUE \<and>
            \<not> isComparing b \<and> \<not> isSorted b \<and> \<not> isSwapping b) \<and>
         length (testArray random sz) = sz \<and>
         (\<forall>b \<in> set (testArray random sz). val MIN_VALUE \<le> value b \<and> value b \<le> val MAX_VALUE) \<and>
         ARRAY_SIZE = 50 \<and> val MIN_VALUE = 5 \<and> val MAX_VALUE = 100"
proof -
  have r: "val MIN_VALUE \<le> random_value (random k) \<and> random_value (random k) \<le> val MAX_VALUE" for k
    using assms random_value_range[of "random k"] by blast
  have c: "ARRAY_SIZE = 50 \<and> val MIN_VALUE = 5 \<and> val MAX_VALUE = 100"
    by (simp add: ARRAY_SIZE_def MIN_VALUE_def MAX_VALUE_def)
  have "length (generateArray random) = ARRAY_SIZE" "length (testArray random sz) = sz"
    by (simp_all add: generateArray_def testArray_def)
  moreover have "\<forall>b \<in> set (generateArray random).
            val MIN_VALUE \<le> value b \<and> value b \<le> val MAX_VALUE \<and>
            \<not> isComparing b \<and> \<not> isSorted b \<and> \<not> isSwapping b"
    using r by (auto simp: generateArray_def new_bar_def)
  moreover have "\<forall>b \<in> set (testArray random sz). val MIN_VALUE \<le> value b \<and> value b \<le> val MAX_VALUE"
    using r by (auto simp: testArray_def new_bar_def)
  ultimately show ?thesis using c by blast
qed

theorem generated_arrays_in_range_witness:
  "(\<forall>k :: nat. is_double (Double 6004799503160661 (- 59)) \<and>
      0 \<le> val (Double 6004799503160661 (- 59)) \<and> val (Double 6004799503160661 (- 59)) < 1) \<and>
   length (generateArray (\<lambda>k. Double 6004799503160661 (- 59))) = 50 \<and>
   value (generateArray (\<lambda>k. Double 6004799503160661 (- 59)) ! 0) = 6 \<and>
   5 \<le> value (generateArray (\<lambda>k. Double 6004799503160661 (- 59)) ! 0) \<and>
   value (generateArray (\<lambda>k. Double 6004799503160661 (- 59)) ! 0) \<le> 100 \<and>
   map value (testArray (\<lambda>k. Double 6004799503160661 (- 59)) 3) = [6, 6, 6]"
proof -
  have h: "\<forall>k :: nat. is_double (Double 6004799503160661 (- 59)) \<and>
      0 \<le> val (Double 6004799503160661 (- 59)) \<and> val (Double 6004799503160661 (- 59)) < 1"
    by (simp add: is_double_def power_int_minus_divide)
  have e: "random_value (Double 6004799503160661 (- 59)) = 6" by code_simp
  have v: "map value (testArray (\<lambda>k. Double 6004799503160661 (- 59)) 3) = [6, 6, 6]"
    by (simp add: testArray_def new_bar_def e upt_rec)
  have g: "value (generateArray (\<lambda>k. Double 6004799503160661 (- 59)) ! 0) = 6"
    by (simp add: generateArray_def ARRAY_SIZE_def new_bar_def e)
  note r = generated_arrays_in_range[of "\<lambda>k. Double 6004799503160661 (- 59)" 3, OF h]
  from r have len: "length (generateArray (\<lambda>k. Double 6004799503160661 (- 59))) = 50" by simp
  then have "generateArray (\<lambda>k. Double 6004799503160661 (- 59)) ! 0
      \<in> set (generateArray (\<lambda>k. Double 6004799503160661 (- 59)))"
    by (intro nth_mem) simp
  with r have "5 \<le> value (generateArray (\<lambda>k. Double 6004799503160661 (- 59)) ! 0) \<and>
      value (generateArray (\<lambda>k. Double 6004799503160661 (- 59)) ! 0) \<le> 100"
    by auto
  with h v g len show ?thesis by blast
qed

subsection \<open>C7: the sequences of a benchmark result\<close>



subsection \<open>C9: the swaps that \<^verbatim>\<open>partition\<close> counts\<close>

text \<open>
  The calls of \<^verbatim>\<open>partition\<close> in a run of \<^verbatim>\<open>quickSortHelper(low, high)\<close>: one when
  \<open>low < high\<close>, and those of the two recursive calls.
\<close>

function partition_calls :: "bool \<Rightarrow> int \<Rightarrow> int \<Rightarrow> state \<Rightarrow> nat" where
  "partition_calls isBenchmark low high s =
     (if low < high then
        (case partition_qs isBenchmark low high s of
           Inl e \<Rightarrow> 1
         | Inr r \<Rightarrow>
             1 + partition_calls isBenchmark low (fst r - 1) (snd r)
               + (case quickSortHelper isBenchmark low (fst r - 1) (snd r) of
                    Inl e \<Rightarrow> 0
                  | Inr s1 \<Rightarrow> partition_calls isBenchmark (fst r + 1) high s1))
      else 0)"
  by pat_completeness auto
termination
proof (relation "measure (\<lambda>(isBenchmark, low, high, s). nat (high - low))", goal_cases)
  case 1
  show ?case by simp
next
  case (2 isBenchmark low high s r)
  with partition_qs_bounds[of isBenchmark low high s r] show ?case by auto
next
  case (3 isBenchmark low high s r s1)
  with partition_qs_bounds[of isBenchmark low high s r] show ?case by auto
qed

declare partition_calls.simps [simp del]

lemma quickSortHelper_swaps:
  "quickSortHelper isBenchmark low high s = Inr s' \<Longrightarrow>
     swaps (snd s) + partition_calls isBenchmark low high s \<le> swaps (snd s')"
proof (induction isBenchmark low high s arbitrary: s' rule: quickSortHelper.induct)
  case (1 isBenchmark low high s)
  show ?case
  proof (cases "low < high")
    case True
    with "1.prems" obtain r s1 where r: "partition_qs isBenchmark low high s = Inr r"
      and s1: "quickSortHelper isBenchmark low (fst r - 1) (snd r) = Inr s1"
      and s2: "quickSortHelper isBenchmark (fst r + 1) high s1 = Inr s'"
      by (subst (asm) quickSortHelper.simps) (auto simp: andThen_Inr_iff Let_def)
    from partition_qs_bounds[OF r] True have "low \<le> fst r" by simp
    with partition_qs_swaps[OF r] have a: "swaps (snd s) + 1 \<le> swaps (snd (snd r))" by simp
    from "1.IH"(1)[OF True r refl s1] have b: "swaps (snd (snd r)) + partition_calls isBenchmark low (fst r - 1) (snd r) \<le> swaps (snd s1)" .
    from "1.IH"(2)[OF True r refl s1 s2] have c: "swaps (snd s1) + partition_calls isBenchmark (fst r + 1) high s1 \<le> swaps (snd s')" .
    have "partition_calls isBenchmark low high s
        = 1 + partition_calls isBenchmark low (fst r - 1) (snd r) + partition_calls isBenchmark (fst r + 1) high s1"
      using True r s1 by (subst partition_calls.simps) simp
    with a b c show ?thesis by simp
  next
    case False
    with "1.prems" show ?thesis
      by (subst (asm) quickSortHelper.simps, subst partition_calls.simps) auto
  qed
qed

text \<open>
  C9. A call of \<^verbatim>\<open>partition(low, high)\<close> that returns the index \<open>p\<close> has counted
  \<open>p - low\<close> swaps in its loop and one more for the pivot, also when both indices of a
  swap are the same: on the bars of 1, 2 the array stays as it is and two swaps are
  counted. So a run of quick sort counts at least as many swaps as it calls
  \<^verbatim>\<open>partition\<close>, which is at least once when the array has two elements or more; on
  the sorted bars of 1 to 5 it calls \<^verbatim>\<open>partition\<close> 4 times and counts 14 swaps.
\<close>

theorem partition_counts_the_pivot_swap:
  "(partition_qs isBenchmark low high s = Inr r \<longrightarrow>
      int (swaps (snd (snd r))) = int (swaps (snd s)) + (fst r - low) + 1) \<and>
   partition_qs True 0 1 (map new_bar [1, 2], testStats)
     = Inr (1, map new_bar [1, 2], \<lparr>comparisons = 1, swaps = 2, timeElapsed = 0\<rparr>) \<and>
   (quickSortHelper isBenchmark low high s = Inr s' \<longrightarrow>
      swaps (snd s) + partition_calls isBenchmark low high s \<le> swaps (snd s')) \<and>
   (quickSort elapsed arr currentStats isBenchmark = Inr q \<longrightarrow>
      swaps currentStats + partition_calls isBenchmark 0 (int (length arr) - 1) (arr, currentStats)
        \<le> swaps (snd q)) \<and>
   (2 \<le> length arr \<longrightarrow> 1 \<le> partition_calls isBenchmark 0 (int (length arr) - 1) (arr, currentStats)) \<and>
   quickSort elapsed (map new_bar [1, 2, 3, 4, 5]) testStats True
     = Inr (map new_bar [1, 2, 3, 4, 5], \<lparr>comparisons = 10, swaps = 14, timeElapsed = elapsed\<rparr>) \<and>
   partition_calls True 0 4 (map new_bar [1, 2, 3, 4, 5], testStats) = 4"
proof -
  have a: "partition_qs True 0 1 (map new_bar [1, 2], testStats)
     = Inr (1, map new_bar [1, 2], \<lparr>comparisons = 1, swaps = 2, timeElapsed = 0\<rparr>)"
    by code_simp
  have b: "quickSort elapsed (map new_bar [1, 2, 3, 4, 5]) testStats True
     = Inr (map new_bar [1, 2, 3, 4, 5], \<lparr>comparisons = 10, swaps = 14, timeElapsed = elapsed\<rparr>)"
    by code_simp
  have c: "partition_calls True 0 4 (map new_bar [1, 2, 3, 4, 5], testStats) = 4"
    by code_simp
  have d: "quickSort elapsed arr currentStats isBenchmark = Inr q \<longrightarrow>
      swaps currentStats + partition_calls isBenchmark 0 (int (length arr) - 1) (arr, currentStats)
        \<le> swaps (snd q)"
  proof
    assume "quickSort elapsed arr currentStats isBenchmark = Inr q"
    then obtain s1 a2 where s1: "quickSortHelper isBenchmark 0 (int (length arr) - 1) (arr, currentStats) = Inr s1"
      and q: "q = (a2, (snd s1)\<lparr>timeElapsed := elapsed\<rparr>)"
      by (auto simp: quickSort_def Let_def andThen_Inr_iff)
    from quickSortHelper_swaps[OF s1] q show
      "swaps currentStats + partition_calls isBenchmark 0 (int (length arr) - 1) (arr, currentStats)
        \<le> swaps (snd q)" by simp
  qed
  have e: "2 \<le> length arr \<longrightarrow> 1 \<le> partition_calls isBenchmark 0 (int (length arr) - 1) (arr, currentStats)"
    by (subst partition_calls.simps) (auto split: sum.splits)
  from a b c d e partition_qs_swaps[of isBenchmark low high s r]
    quickSortHelper_swaps[of isBenchmark low high s s']
  show ?thesis by blast
qed

theorem partition_counts_the_pivot_swap_witness:
  "partition_qs True 0 2 (map new_bar [3, 1, 2], testStats)
     = Inr (1, map new_bar [1, 2, 3], \<lparr>comparisons = 2, swaps = 2, timeElapsed = 0\<rparr>) \<and>
   int (swaps (snd (snd (1 :: int, map new_bar [1, 2, 3], \<lparr>comparisons = 2, swaps = 2, timeElapsed = 0\<rparr>))))
     = int (swaps (snd (map new_bar [3, 1, 2], testStats)))
       + (fst (1 :: int, map new_bar [1, 2, 3], \<lparr>comparisons = 2, swaps = 2, timeElapsed = 0\<rparr>) - 0) + 1 \<and>
   quickSortHelper True 0 2 (map new_bar [3, 1, 2], testStats)
     = Inr (map new_bar [1, 2, 3], \<lparr>comparisons = 2, swaps = 2, timeElapsed = 0\<rparr>) \<and>
   swaps (snd (map new_bar [3, 1, 2], testStats))
       + partition_calls True 0 2 (map new_bar [3, 1, 2], testStats)
     \<le> swaps (snd (map new_bar [1, 2, 3], \<lparr>comparisons = 2, swaps = 2, timeElapsed = 0\<rparr>)) \<and>
   quickSort 0 (map new_bar [3, 1, 2]) testStats True
     = Inr (map new_bar [1, 2, 3], \<lparr>comparisons = 2, swaps = 2, timeElapsed = 0\<rparr>) \<and>
   swaps testStats
       + partition_calls True 0 (int (length (map new_bar [3, 1, 2])) - 1) (map new_bar [3, 1, 2], testStats)
     \<le> swaps (snd (map new_bar [1, 2, 3], \<lparr>comparisons = 2, swaps = 2, timeElapsed = 0\<rparr>)) \<and>
   2 \<le> length (map new_bar [3, 1, 2]) \<and>
   1 \<le> partition_calls True 0 (int (length (map new_bar [3, 1, 2])) - 1) (map new_bar [3, 1, 2], testStats)"
proof -
  have a: "partition_qs True 0 2 (map new_bar [3, 1, 2], testStats)
     = Inr (1, map new_bar [1, 2, 3], \<lparr>comparisons = 2, swaps = 2, timeElapsed = 0\<rparr>)"
    by code_simp
  have b: "quickSortHelper True 0 2 (map new_bar [3, 1, 2], testStats)
     = Inr (map new_bar [1, 2, 3], \<lparr>comparisons = 2, swaps = 2, timeElapsed = 0\<rparr>)"
    by code_simp
  have c: "2 \<le> length (map new_bar [3, 1, 2])" by simp
  have d: "quickSort 0 (map new_bar [3, 1, 2]) testStats True
     = Inr (map new_bar [1, 2, 3], \<lparr>comparisons = 2, swaps = 2, timeElapsed = 0\<rparr>)"
    by code_simp
  from partition_counts_the_pivot_swap[where isBenchmark = True and low = 0 and high = 2
      and s = "(map new_bar [3, 1, 2], testStats)"
      and r = "(1, map new_bar [1, 2, 3], \<lparr>comparisons = 2, swaps = 2, timeElapsed = 0\<rparr>)"
      and s' = "(map new_bar [1, 2, 3], \<lparr>comparisons = 2, swaps = 2, timeElapsed = 0\<rparr>)"
      and arr = "map new_bar [3, 1, 2]" and currentStats = testStats and elapsed = 0
      and q = "(map new_bar [1, 2, 3], \<lparr>comparisons = 2, swaps = 2, timeElapsed = 0\<rparr>)"] a b c d
  show ?thesis by blast
qed

subsection \<open>C10: the comparisons that \<^verbatim>\<open>heapify\<close> counts\<close>

text \<open>
  The invocations of \<^verbatim>\<open>heapify\<close> in a call \<^verbatim>\<open>heapify(n, i)\<close>: the call itself, and those
  of the recursive call after a swap.
\<close>

function heapify_invocations :: "bool \<Rightarrow> int \<Rightarrow> int \<Rightarrow> state \<Rightarrow> nat" where
  "heapify_invocations isBenchmark n i s =
     (case heapify_select isBenchmark n i s of
        Inl e \<Rightarrow> 1
      | Inr r \<Rightarrow>
          (if fst r \<noteq> i then
             (case andThen (interactive isBenchmark [(i, IsSwapping, True), (fst r, IsSwapping, True)] (fst (snd r))) (\<lambda>a2.
                   andThen (swap_elems i (fst r) a2) (\<lambda>a3.
                   interactive isBenchmark [(i, IsSwapping, False), (fst r, IsSwapping, False)] a3)) of
                Inl e \<Rightarrow> 1
              | Inr a4 \<Rightarrow> 1 + heapify_invocations isBenchmark n (fst r) (a4, count_swap (snd (snd r))))
           else 1))"
  by pat_completeness auto
termination
proof (relation "measure (\<lambda>(isBenchmark, n, i, s). nat (n - i))", goal_cases)
  case 1
  show ?case by simp
next
  case (2 isBenchmark n i s r a4)
  with heapify_select_largest[of isBenchmark n i s r] show ?case by auto
qed

declare heapify_invocations.simps [simp del]

lemma heapify_comparisons:
  "heapify isBenchmark n i s = Inr s' \<Longrightarrow>
     comparisons (snd s') = comparisons (snd s) + 2 * heapify_invocations isBenchmark n i s"
proof (induction isBenchmark n i s arbitrary: s' rule: heapify.induct)
  case (1 isBenchmark n i s)
  from "1.prems" have u: "andThen (heapify_select isBenchmark n i s) (\<lambda>r.
     let largest = fst r; a1 = fst (snd r); st2 = snd (snd r) in
     andThen (if largest \<noteq> i then
                andThen (interactive isBenchmark [(i, IsSwapping, True), (largest, IsSwapping, True)] a1) (\<lambda>a2.
                andThen (swap_elems i largest a2) (\<lambda>a3.
                let st3 = count_swap st2 in
                andThen (interactive isBenchmark [(i, IsSwapping, False), (largest, IsSwapping, False)] a3) (\<lambda>a4.
                heapify isBenchmark n largest (a4, st3))))
              else Inr (a1, st2)) (\<lambda>s4.
     andThen (interactive isBenchmark (heapify_flags n i False) (fst s4)) (\<lambda>a5.
     Inr (a5, snd s4)))) = Inr s'"
    by (subst (asm) heapify.simps)
  show ?case
  proof (cases "heapify_select isBenchmark n i s")
    case (Inl e)
    with u show ?thesis by simp
  next
    case (Inr r)
    note c = heapify_select_comparisons[OF Inr]
    show ?thesis
    proof (cases "fst r = i")
      case True
      with u Inr have "snd s' = snd (snd r)" by (auto simp: andThen_Inr_iff Let_def)
      moreover from True Inr have "heapify_invocations isBenchmark n i s = 1"
        by (subst heapify_invocations.simps) simp
      ultimately show ?thesis using c by simp
    next
      case False
      with u Inr obtain a2 a3 a4 s4 where
        a2: "interactive isBenchmark [(i, IsSwapping, True), (fst r, IsSwapping, True)] (fst (snd r)) = Inr a2" and
        a3: "swap_elems i (fst r) a2 = Inr a3" and
        a4: "interactive isBenchmark [(i, IsSwapping, False), (fst r, IsSwapping, False)] a3 = Inr a4" and
        rec: "heapify isBenchmark n (fst r) (a4, count_swap (snd (snd r))) = Inr s4" and
        s': "snd s' = snd s4"
        by (auto simp: andThen_Inr_iff Let_def)
      from "1.IH"[OF Inr refl refl refl False a2 a3 refl a4 rec]
      have "comparisons (snd s4) = comparisons (snd (snd r))
          + 2 * heapify_invocations isBenchmark n (fst r) (a4, count_swap (snd (snd r)))"
        by (simp add: count_swap_def)
      moreover from False Inr a2 a3 a4 have "heapify_invocations isBenchmark n i s
          = 1 + heapify_invocations isBenchmark n (fst r) (a4, count_swap (snd (snd r)))"
        by (subst heapify_invocations.simps) simp
      ultimately show ?thesis using c s' by simp
    qed
  qed
qed

text \<open>
  C10. The two comparisons of \<^verbatim>\<open>heapify(n, i)\<close> are counted before the tests
  \<open>left < n\<close> and \<open>right < n\<close>: the selection of the largest of a node and its children
  adds exactly 2 to the comparison count, whatever the children. At a node without
  children (\<open>n \<le> 2 i + 1\<close>) the call in benchmark mode returns the array as it is with 2
  more comparisons and no swap; on the single bar 7 this gives 2 comparisons. A call
  that returns has counted 2 comparisons for each invocation of \<^verbatim>\<open>heapify\<close> in it.
\<close>

theorem heapify_counts_two_comparisons:
  "(heapify_select isBenchmark n i s = Inr r \<longrightarrow>
      comparisons (snd (snd r)) = comparisons (snd s) + 2) \<and>
   (n \<le> 2 * i + 1 \<longrightarrow>
      heapify True n i s = Inr (fst s, (snd s)\<lparr>comparisons := comparisons (snd s) + 2\<rparr>) \<and>
      heapify_invocations True n i s = 1) \<and>
   heapify True 1 0 (map new_bar [7], testStats)
     = Inr (map new_bar [7], \<lparr>comparisons = 2, swaps = 0, timeElapsed = 0\<rparr>) \<and>
   (heapify isBenchmark n i s = Inr s' \<longrightarrow>
      comparisons (snd s') = comparisons (snd s) + 2 * heapify_invocations isBenchmark n i s) \<and>
   1 \<le> heapify_invocations isBenchmark n i s"
proof -
  have a: "n \<le> 2 * i + 1 \<longrightarrow>
      heapify True n i s = Inr (fst s, (snd s)\<lparr>comparisons := comparisons (snd s) + 2\<rparr>) \<and>
      heapify_invocations True n i s = 1"
  proof
    assume l: "n \<le> 2 * i + 1"
    have "heapify True n i s = Inr (fst s, (snd s)\<lparr>comparisons := comparisons (snd s) + 2\<rparr>)"
      by (subst heapify.simps) (simp add: heapify_select_leaf[OF l] Let_def count_comparison_def)
    moreover have "heapify_invocations True n i s = 1"
      by (subst heapify_invocations.simps) (simp add: heapify_select_leaf[OF l])
    ultimately show "heapify True n i s = Inr (fst s, (snd s)\<lparr>comparisons := comparisons (snd s) + 2\<rparr>) \<and>
      heapify_invocations True n i s = 1" ..
  qed
  have b: "heapify True 1 0 (map new_bar [7], testStats)
     = Inr (map new_bar [7], \<lparr>comparisons = 2, swaps = 0, timeElapsed = 0\<rparr>)"
    by code_simp
  have c: "1 \<le> heapify_invocations isBenchmark n i s"
    by (subst heapify_invocations.simps) (auto split: sum.splits)
  from a b c heapify_select_comparisons[of isBenchmark n i s r]
    heapify_comparisons[of isBenchmark n i s s']
  show ?thesis by blast
qed

theorem heapify_counts_two_comparisons_witness:
  "heapify_select True 3 0 (map new_bar [1, 3, 2], testStats)
     = Inr (1, map new_bar [1, 3, 2], \<lparr>comparisons = 2, swaps = 0, timeElapsed = 0\<rparr>) \<and>
   comparisons (snd (snd (1 :: int, map new_bar [1, 3, 2], \<lparr>comparisons = 2, swaps = 0, timeElapsed = 0\<rparr>)))
     = comparisons (snd (map new_bar [1, 3, 2], testStats)) + 2 \<and>
   heapify True 3 0 (map new_bar [1, 3, 2], testStats)
     = Inr (map new_bar [3, 1, 2], \<lparr>comparisons = 4, swaps = 1, timeElapsed = 0\<rparr>) \<and>
   comparisons (snd (map new_bar [3, 1, 2], \<lparr>comparisons = 4, swaps = 1, timeElapsed = 0\<rparr>))
     = comparisons (snd (map new_bar [1, 3, 2], testStats))
       + 2 * heapify_invocations True 3 0 (map new_bar [1, 3, 2], testStats) \<and>
   (3 :: int) \<le> 2 * 1 + 1 \<and>
   heapify True 3 1 (map new_bar [3, 1, 2], testStats)
     = Inr (fst (map new_bar [3, 1, 2], testStats),
            (snd (map new_bar [3, 1, 2], testStats))
              \<lparr>comparisons := comparisons (snd (map new_bar [3, 1, 2], testStats)) + 2\<rparr>) \<and>
   heapify_invocations True 3 1 (map new_bar [3, 1, 2], testStats) = 1"
proof -
  have a: "heapify_select True 3 0 (map new_bar [1, 3, 2], testStats)
     = Inr (1, map new_bar [1, 3, 2], \<lparr>comparisons = 2, swaps = 0, timeElapsed = 0\<rparr>)"
    by code_simp
  have b: "heapify True 3 0 (map new_bar [1, 3, 2], testStats)
     = Inr (map new_bar [3, 1, 2], \<lparr>comparisons = 4, swaps = 1, timeElapsed = 0\<rparr>)"
    by code_simp
  have c: "(3 :: int) \<le> 2 * 1 + 1" by simp
  from heapify_counts_two_comparisons[where isBenchmark = True and n = 3 and i = 0
      and s = "(map new_bar [1, 3, 2], testStats)"
      and r = "(1, map new_bar [1, 3, 2], \<lparr>comparisons = 2, swaps = 0, timeElapsed = 0\<rparr>)"
      and s' = "(map new_bar [3, 1, 2], \<lparr>comparisons = 4, swaps = 1, timeElapsed = 0\<rparr>)"] a b
  have d: "comparisons (snd (snd (1 :: int, map new_bar [1, 3, 2], \<lparr>comparisons = 2, swaps = 0, timeElapsed = 0\<rparr>)))
     = comparisons (snd (map new_bar [1, 3, 2], testStats)) + 2"
    and e: "comparisons (snd (map new_bar [3, 1, 2], \<lparr>comparisons = 4, swaps = 1, timeElapsed = 0\<rparr>))
     = comparisons (snd (map new_bar [1, 3, 2], testStats))
       + 2 * heapify_invocations True 3 0 (map new_bar [1, 3, 2], testStats)"
    by blast+
  from heapify_counts_two_comparisons[where n = 3 and i = 1
      and s = "(map new_bar [3, 1, 2], testStats)"] c
  have f: "heapify True 3 1 (map new_bar [3, 1, 2], testStats)
     = Inr (fst (map new_bar [3, 1, 2], testStats),
            (snd (map new_bar [3, 1, 2], testStats))
              \<lparr>comparisons := comparisons (snd (map new_bar [3, 1, 2], testStats)) + 2\<rparr>) \<and>
   heapify_invocations True 3 1 (map new_bar [3, 1, 2], testStats) = 1"
    by blast
  from a b c d e f show ?thesis by blast
qed

subsection \<open>C5: heap sort and quick sort on the sorted array 1, 2, 3, 4, 5\<close>

text \<open>
  The largest counts of quick sort on \<open>n\<close> elements: \<^verbatim>\<open>partition\<close> on \<open>m\<close> elements counts
  \<open>m - 1\<close> comparisons and at most \<open>m\<close> swaps, and leaves \<open>m - 1\<close> elements to sort.
\<close>

definition quick_worst_comparisons :: "nat \<Rightarrow> nat" where
  "quick_worst_comparisons n = n * (n - 1) div 2"

definition quick_worst_swaps :: "nat \<Rightarrow> nat" where
  "quick_worst_swaps n = (n - 1) * (n + 2) div 2"

text \<open>
  A bound on the counts of heap sort on \<open>n\<close> elements: a call of \<^verbatim>\<open>heapify\<close> counts two
  comparisons at each node that it visits, and one swap between two of them; the
  extraction loop counts one more swap for each of its \<open>n - 1\<close> rounds.
\<close>

definition heap_worst_comparisons :: "nat \<Rightarrow> nat" where
  "heap_worst_comparisons n = 2 * (build_levels n (n div 2) + extract_levels (n - 1))"

definition heap_worst_swaps :: "nat \<Rightarrow> nat" where
  "heap_worst_swaps n = build_levels n (n div 2) + extract_levels (n - 1) - n div 2"

text \<open>
  C5, as stated, fails for quick sort: the sorted array is a worst case of
  \<^verbatim>\<open>partition\<close> with the last element as pivot. On 1, 2, 3, 4, 5 quick sort counts 10
  comparisons and 14 swaps, the largest counts of any array of 5 elements, so they
  are not strictly below the worst case.
\<close>

theorem quickSort_sorted_input_is_a_worst_case:
  "quickSort 0 (map new_bar [1, 2, 3, 4, 5]) testStats True
     = Inr (map new_bar [1, 2, 3, 4, 5], \<lparr>comparisons = 10, swaps = 14, timeElapsed = 0\<rparr>) \<and>
   quick_worst_comparisons 5 = 10 \<and> quick_worst_swaps 5 = 14 \<and>
   \<not> comparisons \<lparr>comparisons = 10, swaps = 14, timeElapsed = 0\<rparr> < quick_worst_comparisons 5 \<and>
   \<not> swaps \<lparr>comparisons = 10, swaps = 14, timeElapsed = 0\<rparr> < quick_worst_swaps 5"
proof -
  have "quickSort 0 (map new_bar [1, 2, 3, 4, 5]) testStats True
     = Inr (map new_bar [1, 2, 3, 4, 5], \<lparr>comparisons = 10, swaps = 14, timeElapsed = 0\<rparr>)"
    by code_simp
  then show ?thesis by (simp add: quick_worst_comparisons_def quick_worst_swaps_def)
qed

text \<open>
  C5, amended. Heap sort and quick sort return the sorted array 1, 2, 3, 4, 5 in the
  same order. Heap sort counts 24 comparisons and 10 swaps on it, strictly fewer than
  the 26 comparisons and 11 swaps that bound heap sort on 5 elements and that the
  array 1, 2, 3, 5, 4 reaches. Quick sort counts 10 comparisons and 14 swaps on it,
  which are exactly the bounds of quick sort on 5 elements. The bounds hold for every
  array: both engines return, and count no more than the bound for the length of the
  array (heap sort on the empty array in benchmark mode only).
\<close>

theorem sorted_input_against_the_worst_case:
  "heapSort elapsed (map new_bar [1, 2, 3, 4, 5]) testStats True
     = Inr (map new_bar [1, 2, 3, 4, 5], \<lparr>comparisons = 24, swaps = 10, timeElapsed = elapsed\<rparr>) \<and>
   quickSort elapsed (map new_bar [1, 2, 3, 4, 5]) testStats True
     = Inr (map new_bar [1, 2, 3, 4, 5], \<lparr>comparisons = 10, swaps = 14, timeElapsed = elapsed\<rparr>) \<and>
   heap_worst_comparisons 5 = 26 \<and> heap_worst_swaps 5 = 11 \<and>
   quick_worst_comparisons 5 = 10 \<and> quick_worst_swaps 5 = 14 \<and>
   heapSort elapsed (map new_bar [1, 2, 3, 5, 4]) testStats True
     = Inr (map new_bar [1, 2, 3, 4, 5], \<lparr>comparisons = 26, swaps = 11, timeElapsed = elapsed\<rparr>) \<and>
   (isBenchmark \<or> arr \<noteq> [] \<longrightarrow>
      (\<exists>h. heapSort elapsed arr currentStats isBenchmark = Inr h \<and>
           comparisons (snd h) \<le> comparisons currentStats + heap_worst_comparisons (length arr) \<and>
           swaps (snd h) \<le> swaps currentStats + heap_worst_swaps (length arr))) \<and>
   (\<exists>q. quickSort elapsed arr currentStats isBenchmark = Inr q \<and>
        comparisons (snd q) \<le> comparisons currentStats + quick_worst_comparisons (length arr) \<and>
        swaps (snd q) \<le> swaps currentStats + quick_worst_swaps (length arr))"
proof -
  have a: "heapSort elapsed (map new_bar [1, 2, 3, 4, 5]) testStats True
     = Inr (map new_bar [1, 2, 3, 4, 5], \<lparr>comparisons = 24, swaps = 10, timeElapsed = elapsed\<rparr>)"
    by code_simp
  have b: "quickSort elapsed (map new_bar [1, 2, 3, 4, 5]) testStats True
     = Inr (map new_bar [1, 2, 3, 4, 5], \<lparr>comparisons = 10, swaps = 14, timeElapsed = elapsed\<rparr>)"
    by code_simp
  have c: "heap_worst_comparisons 5 = 26" "heap_worst_swaps 5 = 11"
    by code_simp+
  have d: "quick_worst_comparisons 5 = 10" "quick_worst_swaps 5 = 14"
    by (simp_all add: quick_worst_comparisons_def quick_worst_swaps_def)
  have e: "heapSort elapsed (map new_bar [1, 2, 3, 5, 4]) testStats True
     = Inr (map new_bar [1, 2, 3, 4, 5], \<lparr>comparisons = 26, swaps = 11, timeElapsed = elapsed\<rparr>)"
    by code_simp
  have f: "isBenchmark \<or> arr \<noteq> [] \<longrightarrow>
      (\<exists>h. heapSort elapsed arr currentStats isBenchmark = Inr h \<and>
           comparisons (snd h) \<le> comparisons currentStats + heap_worst_comparisons (length arr) \<and>
           swaps (snd h) \<le> swaps currentStats + heap_worst_swaps (length arr))"
  proof
    assume "isBenchmark \<or> arr \<noteq> []"
    from heapSort_counts[OF this, of elapsed currentStats] obtain h where
      h: "heapSort elapsed arr currentStats isBenchmark = Inr h" and
      hc: "comparisons (snd h) \<le> comparisons currentStats
         + 2 * (build_levels (length arr) (length arr div 2) + extract_levels (length arr - 1))" and
      hs: "swaps (snd h) + length arr div 2 \<le> swaps currentStats
         + (build_levels (length arr) (length arr div 2) + extract_levels (length arr - 1))"
      by blast
    from hs have "swaps (snd h) \<le> swaps currentStats + heap_worst_swaps (length arr)"
      unfolding heap_worst_swaps_def by linarith
    with h hc show "\<exists>h. heapSort elapsed arr currentStats isBenchmark = Inr h \<and>
           comparisons (snd h) \<le> comparisons currentStats + heap_worst_comparisons (length arr) \<and>
           swaps (snd h) \<le> swaps currentStats + heap_worst_swaps (length arr)"
      unfolding heap_worst_comparisons_def by blast
  qed
  have g: "\<exists>q. quickSort elapsed arr currentStats isBenchmark = Inr q \<and>
        comparisons (snd q) \<le> comparisons currentStats + quick_worst_comparisons (length arr) \<and>
        swaps (snd q) \<le> swaps currentStats + quick_worst_swaps (length arr)"
    using quickSort_counts[of elapsed arr currentStats isBenchmark]
    unfolding quick_worst_comparisons_def quick_worst_swaps_def
      tri_comparisons_closed tri_swaps_closed .
  from a b c d e f g show ?thesis by blast
qed

theorem sorted_input_against_the_worst_case_witness:
  "map new_bar [5, 1, 4, 2, 3] \<noteq> [] \<and>
   heapSort 0 (map new_bar [5, 1, 4, 2, 3]) testStats False
     = Inr (map (\<lambda>v. (new_bar v)\<lparr>isSorted := True\<rparr>) [1, 2, 3, 4, 5],
            \<lparr>comparisons = 20, swaps = 8, timeElapsed = 0\<rparr>) \<and>
   comparisons \<lparr>comparisons = 20, swaps = 8, timeElapsed = 0\<rparr>
     \<le> comparisons testStats + heap_worst_comparisons (length (map new_bar [5, 1, 4, 2, 3])) \<and>
   swaps \<lparr>comparisons = 20, swaps = 8, timeElapsed = 0\<rparr>
     \<le> swaps testStats + heap_worst_swaps (length (map new_bar [5, 1, 4, 2, 3]))"
proof -
  have ne: "map new_bar [5, 1, 4, 2, 3] \<noteq> []" by simp
  have r: "heapSort 0 (map new_bar [5, 1, 4, 2, 3]) testStats False
     = Inr (map (\<lambda>v. (new_bar v)\<lparr>isSorted := True\<rparr>) [1, 2, 3, 4, 5],
            \<lparr>comparisons = 20, swaps = 8, timeElapsed = 0\<rparr>)"
    by code_simp
  from sorted_input_against_the_worst_case[where arr = "map new_bar [5, 1, 4, 2, 3]"
      and isBenchmark = False and currentStats = testStats and elapsed = 0] ne
  obtain h where h: "heapSort 0 (map new_bar [5, 1, 4, 2, 3]) testStats False = Inr h"
    and hc: "comparisons (snd h) \<le> comparisons testStats + heap_worst_comparisons (length (map new_bar [5, 1, 4, 2, 3]))"
    and hs: "swaps (snd h) \<le> swaps testStats + heap_worst_swaps (length (map new_bar [5, 1, 4, 2, 3]))"
    by blast
  from h r have hh: "h = (map (\<lambda>v. (new_bar v)\<lparr>isSorted := True\<rparr>) [1, 2, 3, 4, 5],
            \<lparr>comparisons = 20, swaps = 8, timeElapsed = 0\<rparr>)"
    by simp
  from hc have c: "comparisons \<lparr>comparisons = 20, swaps = 8, timeElapsed = 0\<rparr>
     \<le> comparisons testStats + heap_worst_comparisons (length (map new_bar [5, 1, 4, 2, 3]))"
    unfolding hh snd_conv .
  from hs have s: "swaps \<lparr>comparisons = 20, swaps = 8, timeElapsed = 0\<rparr>
     \<le> swaps testStats + heap_worst_swaps (length (map new_bar [5, 1, 4, 2, 3]))"
    unfolding hh snd_conv .
  from ne r c s show ?thesis by blast
qed

end
